theory Spec2Isabelle
  imports Complex_Main
begin

section \<open>Color scale generation (skills/tokens/color-scale/algorithm.ts)\<close>

text \<open>
  The TypeScript functions of the color scale generator, one HOL function per source
  function, under the source's names. A TypeScript \<open>number\<close> is modelled as a
  \<^typ>\<open>real\<close>: arithmetic is exact, \<open>Math.pow\<close> on a positive base is \<open>powr\<close>,
  \<open>Math.cbrt\<close> is \<open>root 3\<close>, and there is no NaN, no infinity and no signed zero.
  The rounding of double-precision arithmetic is modelled in \<open>rgbToHsl\<close>, whose results
  depend on it, and nowhere else. A TypeScript \<open>string\<close> is a \<^typ>\<open>string\<close>, a list of
  8-bit characters.
\<close>

subsection \<open>Primitives of the host language\<close>

text \<open>\<open>Math.round\<close>: the nearest integer, a tie going up.\<close>

definition Math_round :: "real \<Rightarrow> real" where
  "Math_round x = of_int \<lfloor>x + 1 / 2\<rfloor>"

text \<open>The remainder operator \<open>%\<close>: the quotient is truncated toward zero, so the
  result has the sign of the dividend.\<close>

definition js_rem :: "real \<Rightarrow> real \<Rightarrow> real" where
  "js_rem x y = x - y * of_int (if 0 \<le> x / y then \<lfloor>x / y\<rfloor> else \<lceil>x / y\<rceil>)"

text \<open>\<open>Math.atan2(y, x)\<close>: the angle of the point \<open>(x, y)\<close> in \<open>(-\<pi>, \<pi>]\<close>, and 0 at
  the origin.\<close>

definition Math_atan2 :: "real \<Rightarrow> real \<Rightarrow> real" where
  "Math_atan2 y x =
     (if 0 < x then arctan (y / x)
      else if x < 0 then (if 0 \<le> y then arctan (y / x) + pi else arctan (y / x) - pi)
      else if 0 < y then pi / 2
      else if y < 0 then - (pi / 2)
      else 0)"

text \<open>Rounding of a double-precision operation: the exact result goes to the nearest
  number with a 53-bit significand, a tie to the one whose significand is even. The
  exponent is not bounded (no overflow to infinity, no subnormal numbers). \<open>rne\<close> rounds
  the significand, scaled to lie between \<open>2^52\<close> and \<open>2^53\<close>, to an integer. The
  magnitudes that arise in \<open>rgbToHsl\<close> on channels between 0 and 255 are 0 or lie between
  \<open>1 / 2048\<close> and 360, far inside the exponent range of a double.\<close>

definition rne :: "real \<Rightarrow> int" where
  "rne y =
     (let f = \<lfloor>y\<rfloor>; t = y - of_int f
      in if t < 1 / 2 then f else if 1 / 2 < t then f + 1 else if even f then f else f + 1)"

definition fl :: "real \<Rightarrow> real" where
  "fl x =
     (if x = 0 then 0
      else let e = \<lfloor>log 2 \<bar>x\<bar>\<rfloor>; q = 2 powr (of_int e - 52)
           in sgn x * (q * of_int (rne (\<bar>x\<bar> / q))))"

text \<open>The character class \<open>[a-f\d]\<close> under the flag \<open>i\<close>, by character code.\<close>

definition hexClass :: "char \<Rightarrow> bool" where
  "hexClass c =
     (let n = (of_char c :: nat)
      in (97 \<le> n \<and> n \<le> 102) \<or> (65 \<le> n \<and> n \<le> 70) \<or> (48 \<le> n \<and> n \<le> 57))"

text \<open>The value of one digit in radix 16, as \<open>parseInt\<close> reads it.\<close>

definition digitValue :: "char \<Rightarrow> nat" where
  "digitValue c =
     (let n = (of_char c :: nat)
      in if 48 \<le> n \<and> n \<le> 57 then n - 48
         else if 97 \<le> n \<and> n \<le> 102 then n - 87
         else if 65 \<le> n \<and> n \<le> 70 then n - 55
         else 0)"

text \<open>\<open>parseInt(s, 16)\<close> on a string of hexadecimal digits (the only strings the
  capture groups of \<open>hexToRgb\<close> hold).\<close>

definition parseInt16 :: "string \<Rightarrow> nat" where
  "parseInt16 s = foldl (\<lambda>acc c. 16 * acc + digitValue c) 0 s"

text \<open>\<open>Number.prototype.toString(16)\<close> on a natural number: lowercase digits, no
  leading zero.\<close>

definition hexDigitChar :: "nat \<Rightarrow> char" where
  "hexDigitChar d = ''0123456789abcdef'' ! d"

fun toString16 :: "nat \<Rightarrow> string" where
  "toString16 n =
     (if n < 16 then [hexDigitChar n]
      else toString16 (n div 16) @ [hexDigitChar (n mod 16)])"

declare toString16.simps [simp del]

subsection \<open>Hex strings\<close>

text \<open>The body of the pattern after the optional \<open>#\<close>: three groups of two
  characters of the class, then the end of the input.\<close>

fun matchGroups :: "string \<Rightarrow> (string \<times> string \<times> string) option" where
  "matchGroups [a, b, c, d, e, f] =
     (if hexClass a \<and> hexClass b \<and> hexClass c \<and> hexClass d \<and> hexClass e \<and> hexClass f
      then Some ([a, b], [c, d], [e, f]) else None)"
| "matchGroups _ = None"

text \<open>\<open>/^#?([a-f\d]{2})([a-f\d]{2})([a-f\d]{2})$/i.exec(hex)\<close>: the optional \<open>#\<close> is
  greedy, and the match is retried without it when the rest fails.\<close>

definition hexPatternExec :: "string \<Rightarrow> (string \<times> string \<times> string) option" where
  "hexPatternExec s =
     (case s of
        [] \<Rightarrow> matchGroups s
      | c # rest \<Rightarrow>
          (if c = CHR ''#''
           then (case matchGroups rest of Some gs \<Rightarrow> Some gs | None \<Rightarrow> matchGroups s)
           else matchGroups s))"

definition hexToRgb :: "string \<Rightarrow> real \<times> real \<times> real" where
  "hexToRgb hexStr =
     (case hexPatternExec hexStr of
        None \<Rightarrow> (0, 0, 0)
      | Some (g1, g2, g3) \<Rightarrow>
          (of_nat (parseInt16 g1), of_nat (parseInt16 g2), of_nat (parseInt16 g3)))"

text \<open>One channel of \<open>rgbToHex\<close>: the body of the arrow function.\<close>

definition channelHex :: "real \<Rightarrow> string" where
  "channelHex x =
     (let hexStr = toString16 (nat \<lfloor>Math_round (max 0 (min 255 x))\<rfloor>)
      in if length hexStr = 1 then CHR ''0'' # hexStr else hexStr)"

definition rgbToHex :: "real \<Rightarrow> real \<Rightarrow> real \<Rightarrow> string" where
  "rgbToHex r g b = CHR ''#'' # concat (map channelHex [r, g, b])"

subsection \<open>Color space conversions\<close>

definition srgbToLinear :: "real \<Rightarrow> real" where
  "srgbToLinear c0 =
     (let c = c0 / 255
      in if c \<le> 0.04045 then c / 12.92 else ((c + 0.055) / 1.055) powr 2.4)"

definition linearToSrgb :: "real \<Rightarrow> real" where
  "linearToSrgb c =
     (let clamped = max 0 (min 1 c)
      in if clamped \<le> 0.0031308
         then Math_round (clamped * 12.92 * 255)
         else Math_round ((1.055 * clamped powr (1 / 2.4) - 0.055) * 255))"

text \<open>The source's \<open>l_\<close>, \<open>m_\<close> and \<open>s_\<close> are written \<open>l'\<close>, \<open>m'\<close> and \<open>s'\<close>.\<close>

definition rgbToOklch :: "real \<Rightarrow> real \<Rightarrow> real \<Rightarrow> real \<times> real \<times> real" where
  "rgbToOklch r g b =
     (let lr = srgbToLinear r;
          lg = srgbToLinear g;
          lb = srgbToLinear b;
          l' = 0.4122214708 * lr + 0.5363325363 * lg + 0.0514459929 * lb;
          m' = 0.2119034982 * lr + 0.6806995451 * lg + 0.1073969566 * lb;
          s' = 0.0883024619 * lr + 0.2817188376 * lg + 0.6299787005 * lb;
          l = root 3 l';
          m = root 3 m';
          s = root 3 s';
          L = 0.2104542553 * l + 0.7936177850 * m - 0.0040720468 * s;
          a = 1.9779984951 * l - 2.4285922050 * m + 0.4505937099 * s;
          bVal = 0.0259040371 * l + 0.7827717662 * m - 0.8086757660 * s;
          C = sqrt (a * a + bVal * bVal);
          H0 = Math_atan2 bVal a * 180 / pi;
          H = (if H0 < 0 then H0 + 360 else H0)
      in (L, C, H))"

definition oklchToRgb :: "real \<Rightarrow> real \<Rightarrow> real \<Rightarrow> real \<times> real \<times> real" where
  "oklchToRgb L C H =
     (let a = C * cos (H * pi / 180);
          b = C * sin (H * pi / 180);
          l' = L + 0.3963377774 * a + 0.2158037573 * b;
          m' = L - 0.1055613458 * a - 0.0638541728 * b;
          s' = L - 0.0894841775 * a - 1.2914855480 * b;
          l = l' * l' * l';
          m = m' * m' * m';
          s = s' * s' * s';
          lr = 4.0767416621 * l - 3.3077115913 * m + 0.2309699292 * s;
          lg = - 1.2684380046 * l + 2.6097574011 * m - 0.3413193965 * s;
          lb = - 0.0041960863 * l - 0.7034186147 * m + 1.7076147010 * s
      in (linearToSrgb lr, linearToSrgb lg, linearToSrgb lb))"

text \<open>The results of \<open>rgbToHsl\<close> depend on how each operation rounds (\<open>h * 360\<close> and
  \<open>s * 100\<close> come close to a tie of \<open>Math.round\<close>), so every division, sum, difference
  and product of the source is rounded by \<open>fl\<close>, in the order in which the source
  evaluates it; the arguments are taken to be double-precision numbers, as integer
  channels are. \<open>Math.max\<close>, \<open>Math.min\<close>, the comparisons and \<open>Math.round\<close> are exact.
  The \<open>switch (max)\<close> takes the first case that equals \<open>max\<close>; \<open>h\<close> and \<open>s\<close> keep their
  initial 0 when \<open>max = min\<close>, and \<open>d\<close> is only used when \<open>max\<close> and \<open>min\<close> differ.\<close>

definition rgbToHsl :: "real \<Rightarrow> real \<Rightarrow> real \<Rightarrow> real \<times> real \<times> real" where
  "rgbToHsl r0 g0 b0 =
     (let r = fl (r0 / 255); g = fl (g0 / 255); b = fl (b0 / 255);
          mx = max (max r g) b; mn = min (min r g) b;
          l = fl (fl (mx + mn) / 2);
          d = fl (mx - mn);
          s = (if mx \<noteq> mn
               then (if l > 0.5 then fl (d / fl (fl (2 - mx) - mn)) else fl (d / fl (mx + mn)))
               else 0);
          h = (if mx \<noteq> mn
               then (if mx = r then fl (fl (fl (fl (g - b) / d) + (if g < b then 6 else 0)) / 6)
                     else if mx = g then fl (fl (fl (fl (b - r) / d) + 2) / 6)
                     else if mx = b then fl (fl (fl (fl (r - g) / d) + 4) / 6)
                     else 0)
               else 0)
      in (Math_round (fl (h * 360)), Math_round (fl (s * 100)), Math_round (fl (l * 100))))"

subsection \<open>Scale generation\<close>

record ColorStop =
  step :: nat
  hex :: string
  oklch :: "real \<times> real \<times> real"
  rgb :: "real \<times> real \<times> real"
  hsl :: "real \<times> real \<times> real"

definition LIGHTNESS_STOPS :: "(nat \<times> real) list" where
  "LIGHTNESS_STOPS =
     [(50, 0.97), (100, 0.93), (200, 0.87), (300, 0.78), (400, 0.65), (500, 0.55),
      (600, 0.45), (700, 0.37), (800, 0.27), (900, 0.20), (950, 0.14)]"

text \<open>The body of the arrow function that \<open>generateColorScale\<close> maps over the table,
  for the chroma \<open>C\<close> and hue \<open>H\<close> of the base color.\<close>

definition colorStopAt :: "real \<Rightarrow> real \<Rightarrow> nat \<times> real \<Rightarrow> ColorStop" where
  "colorStopAt C H entry =
     (let (stp, L) = entry;
          chromaMultiplier = (if L > 0.9 then 0.3 else if L < 0.2 then 0.7 else 1);
          adjustedC = C * chromaMultiplier;
          (newR, newG, newB) = oklchToRgb L adjustedC H;
          newHex = rgbToHex newR newG newB;
          hslVal = rgbToHsl newR newG newB
      in \<lparr>step = stp, hex = newHex, oklch = (L, adjustedC, H),
          rgb = (newR, newG, newB), hsl = hslVal\<rparr>)"

definition generateColorScale :: "string \<Rightarrow> ColorStop list" where
  "generateColorScale hexStr =
     (let (r, g, b) = hexToRgb hexStr;
          (L0, C, H) = rgbToOklch r g b
      in map (colorStopAt C H) LIGHTNESS_STOPS)"

definition generateNeutralScale :: "string \<Rightarrow> ColorStop list" where
  "generateNeutralScale brandHex =
     (let (r, g, b) = hexToRgb brandHex;
          (L0, C0, H) = rgbToOklch r g b;
          (nr, ng, nb) = oklchToRgb 0.55 0.01 H;
          neutralHex = rgbToHex nr ng nb
      in generateColorScale neutralHex)"

text \<open>The two hue lines of \<open>generateHarmonizedSemantic\<close>: \<open>blendedHue\<close>, then
  \<open>normalizedHue\<close>.\<close>

definition harmonizedHue :: "real \<Rightarrow> real \<Rightarrow> real \<Rightarrow> real" where
  "harmonizedHue brandH baseHue influence =
     (let blendedHue = baseHue + (brandH - baseHue) * influence
      in js_rem (js_rem blendedHue 360 + 360) 360)"

text \<open>Every call in the source passes \<open>influence\<close>, so its default 0.15 is not
  modelled.\<close>

definition generateHarmonizedSemantic :: "string \<Rightarrow> real \<Rightarrow> real \<Rightarrow> string" where
  "generateHarmonizedSemantic brandHex baseHue influence =
     (let (r, g, b) = hexToRgb brandHex;
          (L0, C0, brandH) = rgbToOklch r g b;
          normalizedHue = harmonizedHue brandH baseHue influence;
          (sr, sg, sb) = oklchToRgb 0.55 0.15 normalizedHue
      in rgbToHex sr sg sb)"

record SemanticColors =
  success :: "ColorStop list"
  warning :: "ColorStop list"
  error :: "ColorStop list"
  info :: "ColorStop list"

definition generateSemanticColors :: "string \<Rightarrow> SemanticColors" where
  "generateSemanticColors brandHex =
     \<lparr>success = generateColorScale (generateHarmonizedSemantic brandHex 145 0.10),
      warning = generateColorScale (generateHarmonizedSemantic brandHex 70 0.10),
      error = generateColorScale (generateHarmonizedSemantic brandHex 25 0.08),
      info = generateColorScale (generateHarmonizedSemantic brandHex 250 0.15)\<rparr>"

subsection \<open>Notions of the specification\<close>

text \<open>A hexadecimal digit, in either case.\<close>

definition isHexDigit :: "char \<Rightarrow> bool" where
  "isHexDigit c \<longleftrightarrow> c \<in> set ''0123456789abcdefABCDEF''"

text \<open>A character of \<open>[0-9a-f]\<close>.\<close>

definition isLowerHexDigit :: "char \<Rightarrow> bool" where
  "isLowerHexDigit c \<longleftrightarrow> c \<in> set ''0123456789abcdef''"

text \<open>Exactly six hexadecimal digits.\<close>

definition sixHexDigits :: "string \<Rightarrow> bool" where
  "sixHexDigits ds \<longleftrightarrow> length ds = 6 \<and> list_all isHexDigit ds"

text \<open>An optional leading \<open>#\<close> followed by exactly six hexadecimal digits.\<close>

definition matchesHexColor :: "string \<Rightarrow> bool" where
  "matchesHexColor s \<longleftrightarrow>
     sixHexDigits s \<or> (case s of [] \<Rightarrow> False | c # ds \<Rightarrow> c = CHR ''#'' \<and> sixHexDigits ds)"

text \<open>The pattern \<open>/^#[0-9a-f]{6}$/\<close> of a well-formed output.\<close>

definition validHex :: "string \<Rightarrow> bool" where
  "validHex s \<longleftrightarrow>
     (case s of [] \<Rightarrow> False | c # ds \<Rightarrow> c = CHR ''#'' \<and> length ds = 6 \<and> list_all isLowerHexDigit ds)"

text \<open>A channel clamped to \<open>[0, 255]\<close> and rounded.\<close>

definition clampedChannel :: "real \<Rightarrow> real" where
  "clampedChannel x = Math_round (if x < 0 then 0 else if 255 < x then 255 else x)"

text \<open>The integer that \<open>rgbToHex\<close> encodes for one channel, as a natural number.\<close>

definition channelByte :: "real \<Rightarrow> nat" where
  "channelByte x = nat \<lfloor>Math_round (max 0 (min 255 x))\<rfloor>"

text \<open>A hue normalized into \<open>[0, 360)\<close>: its representative modulo 360.\<close>

definition normalizeHue :: "real \<Rightarrow> real" where
  "normalizeHue x = x - 360 * of_int \<lfloor>x / 360\<rfloor>"

text \<open>The blended hue of the specification: \<open>baseHue + (brandHue - baseHue) \<times> influence\<close>,
  normalized into \<open>[0, 360)\<close>.\<close>

definition blendedHue :: "real \<Rightarrow> real \<Rightarrow> real \<Rightarrow> real" where
  "blendedHue baseH influence brandH = normalizeHue (baseH + (brandH - baseH) * influence)"

text \<open>The OKLCH triple of the parsed input, and its chroma and hue.\<close>

definition inputOklch :: "string \<Rightarrow> real \<times> real \<times> real" where
  "inputOklch hexStr = (let (r, g, b) = hexToRgb hexStr in rgbToOklch r g b)"

definition inputChroma :: "string \<Rightarrow> real" where
  "inputChroma hexStr = fst (snd (inputOklch hexStr))"

definition inputHue :: "string \<Rightarrow> real" where
  "inputHue hexStr = snd (snd (inputOklch hexStr))"

text \<open>The chroma multiplier of the specification.\<close>

definition specChromaMultiplier :: "real \<Rightarrow> real" where
  "specChromaMultiplier L = (if L > 0.9 then 0.3 else if L < 0.2 then 0.7 else 1.0)"

text \<open>The chroma a stop stores.\<close>

definition chroma :: "ColorStop \<Rightarrow> real" where
  "chroma st = fst (snd (oklch st))"

text \<open>The hex string of the synthetic color with \<open>L = 0.55\<close>, \<open>C = 0.15\<close> and a given hue.\<close>

definition syntheticHex :: "real \<Rightarrow> string" where
  "syntheticHex hue = (let (r, g, b) = oklchToRgb 0.55 0.15 hue in rgbToHex r g b)"

text \<open>The monotonic-lightness property of a scale: 11 stops, in ascending step order, of
  strictly decreasing lightness.\<close>

definition monotonicScale :: "ColorStop list \<Rightarrow> bool" where
  "monotonicScale scale \<longleftrightarrow>
     length scale = 11 \<and> sorted_wrt (<) (map step scale) \<and>
     sorted_wrt (>) (map (\<lambda>st. fst (oklch st)) scale)"

text \<open>\<open>rgbToOklch\<close> followed by \<open>oklchToRgb\<close>.\<close>

definition roundTrip :: "real \<Rightarrow> real \<Rightarrow> real \<Rightarrow> real \<times> real \<times> real" where
  "roundTrip r g b = (let (L, C, H) = rgbToOklch r g b in oklchToRgb L C H)"

section \<open>Properties\<close>

subsection \<open>Parsing and printing hex strings\<close>

lemma char_eq_code: "c = d \<longleftrightarrow> (of_char c :: nat) = of_char d"
  by simp

lemma hexClass_iff: "hexClass c \<longleftrightarrow> isHexDigit c"
proof -
  have "isHexDigit c \<longleftrightarrow> (of_char c :: nat) \<in> {48,49,50,51,52,53,54,55,56,57,97,98,99,100,101,102,65,66,67,68,69,70}"
    unfolding isHexDigit_def by (simp add: char_eq_code [of c])
  also have "\<dots> \<longleftrightarrow> hexClass c"
    unfolding hexClass_def Let_def by (simp; arith)
  finally show ?thesis by simp
qed

lemma hexDigitChar_props:
  assumes "d < 16"
  shows "digitValue (hexDigitChar d) = d" "hexClass (hexDigitChar d)" "isLowerHexDigit (hexDigitChar d)"
proof -
  from assms have "d \<in> {0,1,2,3,4,5,6,7,8,9,10,11,12,13,14,15}" by simp arith
  then show "digitValue (hexDigitChar d) = d" "hexClass (hexDigitChar d)" "isLowerHexDigit (hexDigitChar d)"
    by (auto simp: hexDigitChar_def digitValue_def hexClass_def isLowerHexDigit_def)
qed

lemma hash_not_hexClass: "\<not> hexClass CHR ''#''"
  by (simp add: hexClass_def)

lemma length6_cases:
  assumes "length ds = 6"
  obtains a b c d e f where "ds = [a, b, c, d, e, f]"
proof -
  from assms obtain a b c d e f where "ds = [a, b, c, d, e, f]"
    by (auto simp: length_Suc_conv eval_nat_numeral)
  then show thesis by (rule that)
qed

lemma matchGroups_Some_iff: "matchGroups s \<noteq> None \<longleftrightarrow> sixHexDigits s"
proof (cases "length s = 6")
  case True
  then obtain a b c d e f where "s = [a, b, c, d, e, f]" by (rule length6_cases)
  then show ?thesis by (simp add: sixHexDigits_def hexClass_iff)
next
  case False
  then have "matchGroups s = None"
    by (induction s rule: matchGroups.induct) simp_all
  with False show ?thesis by (simp add: sixHexDigits_def)
qed

lemma matchGroups_hash: "matchGroups (CHR ''#'' # rest) = None"
proof (cases "matchGroups (CHR ''#'' # rest)")
  case None then show ?thesis .
next
  case (Some gs)
  then have "sixHexDigits (CHR ''#'' # rest)" using matchGroups_Some_iff by blast
  then have "isHexDigit CHR ''#''" by (simp add: sixHexDigits_def)
  then show ?thesis by (simp add: isHexDigit_def)
qed

lemma matchGroups_None_iff: "matchGroups s = None \<longleftrightarrow> \<not> sixHexDigits s"
  using matchGroups_Some_iff [of s] by blast

lemma hexPatternExec_None_iff: "hexPatternExec s = None \<longleftrightarrow> \<not> matchesHexColor s"
proof (cases s)
  case Nil
  then show ?thesis by (simp add: hexPatternExec_def matchesHexColor_def sixHexDigits_def)
next
  case (Cons c rest)
  show ?thesis
  proof (cases "c = CHR ''#''")
    case True
    with Cons have "matchGroups s = None" by (simp add: matchGroups_hash)
    moreover from this have "\<not> sixHexDigits s" by (simp add: matchGroups_None_iff)
    ultimately show ?thesis using Cons True matchGroups_None_iff [of rest]
      by (cases "matchGroups rest") (simp_all add: hexPatternExec_def matchesHexColor_def)
  next
    case False
    with Cons matchGroups_None_iff [of s] show ?thesis
      by (simp add: hexPatternExec_def matchesHexColor_def)
  qed
qed

lemma hexToRgb_mismatch: "\<not> matchesHexColor s \<Longrightarrow> hexToRgb s = (0, 0, 0)"
  using hexPatternExec_None_iff [of s] by (simp add: hexToRgb_def)

lemma digitValue_le: "digitValue c \<le> 15"
  by (auto simp: digitValue_def Let_def)

lemma parseInt16_pair: "parseInt16 [a, b] = 16 * digitValue a + digitValue b"
  by (simp add: parseInt16_def)

lemma hexToRgb_six:
  assumes "sixHexDigits [a, b, c, d, e, f]"
  shows "hexToRgb [a, b, c, d, e, f] =
           (real (16 * digitValue a + digitValue b), real (16 * digitValue c + digitValue d),
            real (16 * digitValue e + digitValue f))"
    and "hexToRgb (CHR ''#'' # [a, b, c, d, e, f]) =
           (real (16 * digitValue a + digitValue b), real (16 * digitValue c + digitValue d),
            real (16 * digitValue e + digitValue f))"
proof -
  from assms have cls: "hexClass a" "hexClass b" "hexClass c" "hexClass d" "hexClass e" "hexClass f"
    by (simp_all add: sixHexDigits_def hexClass_iff)
  then have "a \<noteq> CHR ''#''" using hash_not_hexClass by blast
  with cls show "hexToRgb [a, b, c, d, e, f] =
           (real (16 * digitValue a + digitValue b), real (16 * digitValue c + digitValue d),
            real (16 * digitValue e + digitValue f))"
    by (simp add: hexToRgb_def hexPatternExec_def parseInt16_pair)
  from cls show "hexToRgb (CHR ''#'' # [a, b, c, d, e, f]) =
           (real (16 * digitValue a + digitValue b), real (16 * digitValue c + digitValue d),
            real (16 * digitValue e + digitValue f))"
    by (simp add: hexToRgb_def hexPatternExec_def parseInt16_pair)
qed

text \<open>
  Claim C7. On every string that is not an optional \<open>#\<close> followed by exactly six
  hexadecimal digits (in either case), \<open>hexToRgb\<close> returns \<open>(0, 0, 0)\<close>; the function
  has no failing branch. On a string that is, it returns the three channels read from the
  digit pairs, each an integer between 0 and 255.
\<close>

theorem hexToRgb_fallback_or_channels:
  "(\<not> matchesHexColor s \<longrightarrow> hexToRgb s = (0, 0, 0)) \<and>
   (matchesHexColor s \<longrightarrow>
      (\<exists>a b c d e f.
         (s = [a, b, c, d, e, f] \<or> s = CHR ''#'' # [a, b, c, d, e, f]) \<and>
         hexToRgb s =
           (real (16 * digitValue a + digitValue b), real (16 * digitValue c + digitValue d),
            real (16 * digitValue e + digitValue f)) \<and>
         16 * digitValue a + digitValue b \<le> 255 \<and>
         16 * digitValue c + digitValue d \<le> 255 \<and>
         16 * digitValue e + digitValue f \<le> 255))"
proof (intro conjI impI)
  assume "\<not> matchesHexColor s"
  then show "hexToRgb s = (0, 0, 0)" by (rule hexToRgb_mismatch)
next
  assume m: "matchesHexColor s"
  have bound: "16 * digitValue x + digitValue y \<le> 255" for x y
    using digitValue_le [of x] digitValue_le [of y] by linarith
  from m consider "sixHexDigits s" | ds where "s = CHR ''#'' # ds" "sixHexDigits ds"
    unfolding matchesHexColor_def by (cases s) auto
  then obtain a b c d e f where
    shape: "s = [a, b, c, d, e, f] \<or> s = CHR ''#'' # [a, b, c, d, e, f]" and
    six: "sixHexDigits [a, b, c, d, e, f]"
  proof cases
    case 1
    then have "length s = 6" by (simp add: sixHexDigits_def)
    then obtain a b c d e f where "s = [a, b, c, d, e, f]" by (rule length6_cases)
    with 1 that show thesis by simp
  next
    case 2
    then have "length ds = 6" by (simp add: sixHexDigits_def)
    then obtain a b c d e f where "ds = [a, b, c, d, e, f]" by (rule length6_cases)
    with 2 that show thesis by simp
  qed
  from shape hexToRgb_six [OF six] have
    "hexToRgb s =
       (real (16 * digitValue a + digitValue b), real (16 * digitValue c + digitValue d),
        real (16 * digitValue e + digitValue f))"
    by (elim disjE) simp_all
  with shape bound [of a b] bound [of c d] bound [of e f]
  show "\<exists>a b c d e f.
         (s = [a, b, c, d, e, f] \<or> s = CHR ''#'' # [a, b, c, d, e, f]) \<and>
         hexToRgb s =
           (real (16 * digitValue a + digitValue b), real (16 * digitValue c + digitValue d),
            real (16 * digitValue e + digitValue f)) \<and>
         16 * digitValue a + digitValue b \<le> 255 \<and>
         16 * digitValue c + digitValue d \<le> 255 \<and>
         16 * digitValue e + digitValue f \<le> 255"
    by (intro exI [of _ a] exI [of _ b] exI [of _ c] exI [of _ d] exI [of _ e] exI [of _ f] conjI)
qed

theorem hexToRgb_fallback_or_channels_witness:
  "\<not> matchesHexColor ''not-a-color'' \<and> hexToRgb ''not-a-color'' = (0, 0, 0) \<and>
   matchesHexColor ''#3B82F6'' \<and> hexToRgb ''#3B82F6'' = (59, 130, 246)"
proof -
  have n: "\<not> matchesHexColor ''not-a-color''"
    by (simp add: matchesHexColor_def sixHexDigits_def)
  have m: "matchesHexColor ''#3B82F6''"
    by (simp add: matchesHexColor_def sixHexDigits_def isHexDigit_def)
  from n hexToRgb_fallback_or_channels [of "''not-a-color''"]
  have z: "hexToRgb ''not-a-color'' = (0, 0, 0)" by blast
  from m hexToRgb_fallback_or_channels [of "''#3B82F6''"]
  obtain a b c d e f where
    "''#3B82F6'' = [a, b, c, d, e, f] \<or> ''#3B82F6'' = CHR ''#'' # [a, b, c, d, e, f]" and
    v: "hexToRgb ''#3B82F6'' =
       (real (16 * digitValue a + digitValue b), real (16 * digitValue c + digitValue d),
        real (16 * digitValue e + digitValue f))"
    by blast
  then have "a = CHR ''3''" "b = CHR ''B''" "c = CHR ''8''" "d = CHR ''2''" "e = CHR ''F''" "f = CHR ''6''"
    by simp_all
  with v have "hexToRgb ''#3B82F6'' = (59, 130, 246)" by (simp add: digitValue_def)
  with n m z show ?thesis by simp
qed

lemma clamp_range: "0 \<le> max 0 (min 255 x) \<and> max 0 (min 255 x) \<le> (255::real)"
  by simp

lemma Math_round_range:
  assumes "0 \<le> y" "y \<le> 255"
  shows "0 \<le> \<lfloor>y + 1 / 2\<rfloor>" "\<lfloor>y + 1 / 2\<rfloor> \<le> 255"
proof -
  from assms(1) show "0 \<le> \<lfloor>y + 1 / 2\<rfloor>" by simp
  from assms(2) have "y + 1 / 2 < 256" by simp
  then have "\<lfloor>y + 1 / 2\<rfloor> < 256" by (simp add: floor_less_iff)
  then show "\<lfloor>y + 1 / 2\<rfloor> \<le> 255" by simp
qed

lemma channelByte_le: "channelByte x \<le> 255"
proof -
  have "\<lfloor>max 0 (min 255 x) + 1 / 2\<rfloor> \<le> 255"
    by (rule Math_round_range(2)) simp_all
  then have "nat \<lfloor>max 0 (min 255 x) + 1 / 2\<rfloor> \<le> 255" by linarith
  then show ?thesis unfolding channelByte_def Math_round_def floor_of_int .
qed

lemma channelByte_clamped: "real (channelByte x) = clampedChannel x"
proof -
  have eq: "max 0 (min 255 x) = (if x < 0 then 0 else if 255 < x then 255 else x)" by simp
  have "0 \<le> \<lfloor>max 0 (min 255 x) + 1 / 2\<rfloor>"
    using Math_round_range(1) [of "max 0 (min 255 x)"] by simp
  then have "real (channelByte x) = Math_round (max 0 (min 255 x))"
    by (simp add: channelByte_def Math_round_def)
  with eq show ?thesis by (simp only: clampedChannel_def)
qed

lemma channelHex_digits:
  "channelHex x = [hexDigitChar (channelByte x div 16), hexDigitChar (channelByte x mod 16)]"
proof -
  let ?n = "channelByte x"
  have le: "?n \<le> 255" by (rule channelByte_le)
  show ?thesis
  proof (cases "?n < 16")
    case True
    then have "toString16 ?n = [hexDigitChar ?n]" by (simp add: toString16.simps)
    with True show ?thesis
      by (simp add: channelHex_def channelByte_def [symmetric] hexDigitChar_def)
  next
    case False
    from le have "?n div 16 < 16" by simp
    then have "toString16 (?n div 16) = [hexDigitChar (?n div 16)]"
      by (simp add: toString16.simps)
    with False have "toString16 ?n = [hexDigitChar (?n div 16), hexDigitChar (?n mod 16)]"
      by (subst toString16.simps) simp
    then show ?thesis
      by (simp add: channelHex_def channelByte_def [symmetric])
  qed
qed

lemma channelHex_props:
  obtains p q where "channelHex x = [p, q]" "isLowerHexDigit p" "isLowerHexDigit q"
    "hexClass p" "hexClass q" "16 * digitValue p + digitValue q = channelByte x"
proof -
  let ?n = "channelByte x"
  have "?n \<le> 255" by (rule channelByte_le)
  then have d: "?n div 16 < 16" and m: "?n mod 16 < 16" by simp_all
  show thesis
  proof (rule that [of "hexDigitChar (?n div 16)" "hexDigitChar (?n mod 16)"])
    show "channelHex x = [hexDigitChar (?n div 16), hexDigitChar (?n mod 16)]"
      by (rule channelHex_digits)
    show "isLowerHexDigit (hexDigitChar (?n div 16))" using d by (rule hexDigitChar_props)
    show "isLowerHexDigit (hexDigitChar (?n mod 16))" using m by (rule hexDigitChar_props)
    show "hexClass (hexDigitChar (?n div 16))" using d by (rule hexDigitChar_props)
    show "hexClass (hexDigitChar (?n mod 16))" using m by (rule hexDigitChar_props)
    show "16 * digitValue (hexDigitChar (?n div 16)) + digitValue (hexDigitChar (?n mod 16)) = ?n"
      using hexDigitChar_props(1) [OF d] hexDigitChar_props(1) [OF m] by simp
  qed
qed

lemma rgbToHex_valid: "validHex (rgbToHex r g b)"
proof -
  obtain p1 q1 where 1: "channelHex r = [p1, q1]" "isLowerHexDigit p1" "isLowerHexDigit q1"
    by (rule channelHex_props [of r])
  obtain p2 q2 where 2: "channelHex g = [p2, q2]" "isLowerHexDigit p2" "isLowerHexDigit q2"
    by (rule channelHex_props [of g])
  obtain p3 q3 where 3: "channelHex b = [p3, q3]" "isLowerHexDigit p3" "isLowerHexDigit q3"
    by (rule channelHex_props [of b])
  from 1 2 3 show ?thesis by (simp add: rgbToHex_def validHex_def)
qed

lemma hexToRgb_rgbToHex:
  "hexToRgb (rgbToHex r g b) = (clampedChannel r, clampedChannel g, clampedChannel b)"
proof -
  obtain p1 q1 where 1: "channelHex r = [p1, q1]" "hexClass p1" "hexClass q1"
    "16 * digitValue p1 + digitValue q1 = channelByte r"
    by (rule channelHex_props [of r])
  obtain p2 q2 where 2: "channelHex g = [p2, q2]" "hexClass p2" "hexClass q2"
    "16 * digitValue p2 + digitValue q2 = channelByte g"
    by (rule channelHex_props [of g])
  obtain p3 q3 where 3: "channelHex b = [p3, q3]" "hexClass p3" "hexClass q3"
    "16 * digitValue p3 + digitValue q3 = channelByte b"
    by (rule channelHex_props [of b])
  from 1 2 3 have "hexToRgb (rgbToHex r g b) =
      (real (channelByte r), real (channelByte g), real (channelByte b))"
    by (simp add: rgbToHex_def hexToRgb_def hexPatternExec_def parseInt16_pair)
  then show ?thesis by (simp only: channelByte_clamped)
qed

text \<open>
  Claim C8. For all real \<open>r\<close>, \<open>g\<close>, \<open>b\<close>, also outside \<open>[0, 255]\<close>, \<open>rgbToHex\<close>
  returns \<open>#\<close> followed by six lowercase hexadecimal digits, and reading the string back
  gives each channel clamped to \<open>[0, 255]\<close> and rounded; \<open>rgbToHex(300, -10, 128)\<close>
  encodes the bytes \<open>ff\<close>, \<open>00\<close>, \<open>80\<close>.
\<close>

theorem rgbToHex_clamps_and_rounds:
  "validHex (rgbToHex r g b) \<and>
   hexToRgb (rgbToHex r g b) = (clampedChannel r, clampedChannel g, clampedChannel b) \<and>
   rgbToHex 300 (- 10) 128 = ''#ff0080''"
proof (intro conjI)
  show "validHex (rgbToHex r g b)" by (rule rgbToHex_valid)
  show "hexToRgb (rgbToHex r g b) = (clampedChannel r, clampedChannel g, clampedChannel b)"
    by (rule hexToRgb_rgbToHex)
  show "rgbToHex 300 (- 10) 128 = ''#ff0080''"
    by (simp add: rgbToHex_def channelHex_def Math_round_def toString16.simps hexDigitChar_def)
qed

subsection \<open>The scale\<close>

lemma length_generateColorScale: "length (generateColorScale s) = 11"
  by (simp add: generateColorScale_def LIGHTNESS_STOPS_def split: prod.splits)

lemma step_colorStopAt: "step (colorStopAt C H e) = fst e"
  by (simp add: colorStopAt_def Let_def split: prod.splits)

lemma hex_colorStopAt: "validHex (hex (colorStopAt C H e))"
  by (simp add: colorStopAt_def Let_def rgbToHex_valid split: prod.splits)

lemma oklch_colorStopAt:
  "oklch (colorStopAt C H e) =
     (snd e, C * (if snd e > 0.9 then 0.3 else if snd e < 0.2 then 0.7 else 1), H)"
  by (simp add: colorStopAt_def Let_def split: prod.splits)

lemma map_step_generateColorScale:
  "map step (generateColorScale s) = map fst LIGHTNESS_STOPS"
  by (simp add: generateColorScale_def step_colorStopAt split: prod.splits)

lemma map_lightness_generateColorScale:
  "map (\<lambda>st. fst (oklch st)) (generateColorScale s) = map snd LIGHTNESS_STOPS"
  by (simp add: generateColorScale_def oklch_colorStopAt split: prod.splits)

lemma hex_generateColorScale: "list_all (\<lambda>st. validHex (hex st)) (generateColorScale s)"
  by (auto simp: generateColorScale_def list_all_iff hex_colorStopAt split: prod.splits)

text \<open>
  Claim C3. For every input string, \<open>generateColorScale\<close> returns 11 stops, in ascending
  step order, whose lightness (the first component of \<open>oklch\<close>) is strictly decreasing.
\<close>

theorem generateColorScale_lightness_decreasing:
  "length (generateColorScale s) = 11 \<and>
   sorted_wrt (<) (map step (generateColorScale s)) \<and>
   sorted_wrt (>) (map (\<lambda>st. fst (oklch st)) (generateColorScale s))"
proof (intro conjI)
  show "length (generateColorScale s) = 11" by (rule length_generateColorScale)
  show "sorted_wrt (<) (map step (generateColorScale s))"
    unfolding map_step_generateColorScale by (simp add: LIGHTNESS_STOPS_def)
  show "sorted_wrt (>) (map (\<lambda>st. fst (oklch st)) (generateColorScale s))"
    unfolding map_lightness_generateColorScale by (simp add: LIGHTNESS_STOPS_def)
qed

text \<open>
  Claim C4. \<open>generateColorScale("#3B82F6")\<close> returns exactly 11 stops, with the steps
  50, 100, 200, 300, 400, 500, 600, 700, 800, 900, 950 in that order, and the \<open>hex\<close> of each
  stop matches \<open>/^#[0-9a-f]{6}$/\<close>.
\<close>

theorem generateColorScale_blue_steps:
  "length (generateColorScale ''#3B82F6'') = 11 \<and>
   map step (generateColorScale ''#3B82F6'') =
     [50, 100, 200, 300, 400, 500, 600, 700, 800, 900, 950] \<and>
   list_all (\<lambda>st. validHex (hex st)) (generateColorScale ''#3B82F6'')"
proof (intro conjI)
  show "length (generateColorScale ''#3B82F6'') = 11" by (rule length_generateColorScale)
  show "map step (generateColorScale ''#3B82F6'') =
     [50, 100, 200, 300, 400, 500, 600, 700, 800, 900, 950]"
    unfolding map_step_generateColorScale by (simp add: LIGHTNESS_STOPS_def)
  show "list_all (\<lambda>st. validHex (hex st)) (generateColorScale ''#3B82F6'')"
    by (rule hex_generateColorScale)
qed

text \<open>
  Claim C10. On every string that does not match the pattern of \<open>hexToRgb\<close>,
  \<open>generateColorScale\<close> returns the very stops it returns on \<open>#000000\<close>.
\<close>

theorem generateColorScale_malformed_is_black:
  "\<not> matchesHexColor s \<Longrightarrow> generateColorScale s = generateColorScale ''#000000''"
proof -
  assume "\<not> matchesHexColor s"
  then have "hexToRgb s = (0, 0, 0)" by (rule hexToRgb_mismatch)
  moreover have "hexToRgb ''#000000'' = (0, 0, 0)"
    by (simp add: hexToRgb_def hexPatternExec_def hexClass_def parseInt16_def digitValue_def)
  ultimately show ?thesis by (simp add: generateColorScale_def)
qed

theorem generateColorScale_malformed_is_black_witness:
  "\<not> matchesHexColor ''not-a-color'' \<and>
   generateColorScale ''not-a-color'' = generateColorScale ''#000000''"
proof -
  have n: "\<not> matchesHexColor ''not-a-color''"
    by (simp add: matchesHexColor_def sixHexDigits_def)
  from generateColorScale_malformed_is_black [OF n] n show ?thesis by simp
qed

subsection \<open>Hue blending\<close>

lemma normalizeHue_range: "0 \<le> normalizeHue x \<and> normalizeHue x < 360"
proof -
  have "of_int \<lfloor>x / 360\<rfloor> \<le> x / 360" "x / 360 < of_int \<lfloor>x / 360\<rfloor> + 1"
    by linarith+
  then show ?thesis unfolding normalizeHue_def by (simp add: field_simps)
qed

lemma js_rem_small: "0 \<le> x \<Longrightarrow> x < 360 \<Longrightarrow> js_rem x 360 = x"
proof -
  assume a: "0 \<le> x" "x < 360"
  then have "\<lfloor>x / 360\<rfloor> = 0" by (simp add: floor_eq_iff)
  with a show ?thesis by (simp add: js_rem_def)
qed

lemma js_rem_shift: "0 \<le> x \<Longrightarrow> x < 360 \<Longrightarrow> js_rem (x + 360) 360 = x"
proof -
  assume a: "0 \<le> x" "x < 360"
  then have "\<lfloor>(x + 360) / 360\<rfloor> = 1" by (simp add: floor_eq_iff)
  moreover from a have "0 \<le> (x + 360) / 360" by simp
  ultimately show ?thesis by (simp add: js_rem_def)
qed

lemma js_rem_360_360: "js_rem 360 360 = 0"
  by (simp add: js_rem_def)

lemma harmonized_normalizes: "js_rem (js_rem x 360 + 360) 360 = normalizeHue x"
proof (cases "0 \<le> x")
  case True
  then have "js_rem x 360 = normalizeHue x" by (simp add: js_rem_def normalizeHue_def)
  with normalizeHue_range [of x] show ?thesis by (simp add: js_rem_shift)
next
  case False
  then have neg: "x / 360 < 0" by simp
  then have t: "js_rem x 360 = x - 360 * of_int \<lceil>x / 360\<rceil>" by (simp add: js_rem_def)
  show ?thesis
  proof (cases "x / 360 \<in> \<int>")
    case True
    then have "of_int \<lceil>x / 360\<rceil> = x / 360" "of_int \<lfloor>x / 360\<rfloor> = x / 360"
      by (auto elim!: Ints_cases)
    with t show ?thesis by (simp add: normalizeHue_def js_rem_360_360)
  next
    case False
    then have "x / 360 \<noteq> of_int \<lfloor>x / 360\<rfloor>" by (metis Ints_of_int)
    then have "\<lceil>x / 360\<rceil> = \<lfloor>x / 360\<rfloor> + 1"
      by (simp only: ceiling_altdef if_False)
    with t have "js_rem x 360 + 360 = normalizeHue x"
      by (simp add: normalizeHue_def)
    moreover have "normalizeHue x \<noteq> 0"
    proof
      assume "normalizeHue x = 0"
      then have "x / 360 = of_int \<lfloor>x / 360\<rfloor>" by (simp add: normalizeHue_def)
      then have "x / 360 \<in> \<int>" by (metis Ints_of_int)
      with False show False ..
    qed
    ultimately show ?thesis using normalizeHue_range [of x] js_rem_small [of "normalizeHue x"]
      by simp
  qed
qed

lemma harmonizedHue_normalize:
  "harmonizedHue brandH baseHue influence =
     normalizeHue (baseHue + (brandH - baseHue) * influence)"
  by (simp add: harmonizedHue_def harmonized_normalizes)

subsection \<open>Rounding to double precision\<close>

text \<open>
  \<open>fl\<close> is monotone and odd, keeps a positive number positive, and leaves every
  \<open>m / 2^j\<close> with \<open>|m| < 2^53\<close> unchanged; \<open>fl_eval\<close> computes it where the scaled
  argument is within a half of an integer of 53 bits.
\<close>

lemma rne_of_int: "rne (of_int n) = n"
  by (simp add: rne_def)

lemma rne_floor: "\<lfloor>y\<rfloor> \<le> rne y" "rne y \<le> \<lfloor>y\<rfloor> + 1"
  by (simp_all add: rne_def Let_def)

lemma rne_ge: "of_int n \<le> y \<Longrightarrow> n \<le> rne y"
proof -
  assume "of_int n \<le> y"
  then have "n \<le> \<lfloor>y\<rfloor>" by (simp add: le_floor_iff)
  with rne_floor(1) [of y] show ?thesis by simp
qed

lemma rne_le: "y \<le> of_int n \<Longrightarrow> rne y \<le> n"
proof (cases "y = of_int n")
  case True
  then show ?thesis by (simp add: rne_of_int)
next
  case False
  assume "y \<le> of_int n"
  with False have "y < of_int n" by simp
  then have "\<lfloor>y\<rfloor> < n" by (simp add: floor_less_iff)
  with rne_floor(2) [of y] show ?thesis by simp
qed

lemma rne_mono: "y \<le> z \<Longrightarrow> rne y \<le> rne z"
proof -
  assume yz: "y \<le> z"
  then have f: "\<lfloor>y\<rfloor> \<le> \<lfloor>z\<rfloor>" by (rule floor_mono)
  show ?thesis
  proof (cases "\<lfloor>y\<rfloor> = \<lfloor>z\<rfloor>")
    case True
    with yz have "y - of_int \<lfloor>y\<rfloor> \<le> z - of_int \<lfloor>z\<rfloor>" by simp
    with True show ?thesis by (auto simp: rne_def Let_def)
  next
    case False
    with f have "\<lfloor>y\<rfloor> + 1 \<le> \<lfloor>z\<rfloor>" by simp
    with rne_floor(2) [of y] rne_floor(1) [of z] show ?thesis by linarith
  qed
qed

lemma binade:
  fixes x :: real
  assumes "0 < x"
  defines "e \<equiv> \<lfloor>log 2 x\<rfloor>"
  shows "2 powr of_int e \<le> x" "x < 2 powr (of_int e + 1)"
  using floor_log_eq_powr_iff [of x 2 e] assms by simp_all

lemma scaled_range:
  fixes x :: real
  assumes "0 < x"
  defines "q \<equiv> 2 powr (of_int \<lfloor>log 2 x\<rfloor> - 52)"
  shows "2 ^ 52 \<le> x / q" "x / q < 2 ^ 53" "0 < q"
proof -
  let ?e = "of_int \<lfloor>log 2 x\<rfloor> :: real"
  have q: "q = 2 powr ?e / 2 ^ 52" unfolding q_def by (simp add: powr_diff)
  show "0 < q" by (simp add: q_def)
  have p: "0 < (2::real) powr ?e" by simp
  from binade(1) [OF assms(1)] p show "2 ^ 52 \<le> x / q"
    unfolding q by (simp add: field_simps)
  have "(2::real) powr (?e + 1) = 2 powr ?e * 2" by (simp add: powr_add)
  with binade(2) [OF assms(1)] p show "x / q < 2 ^ 53"
    unfolding q by (simp add: field_simps)
qed

lemma fl_pos_eq:
  assumes "0 < x"
  shows "fl x = 2 powr (of_int \<lfloor>log 2 x\<rfloor> - 52) * of_int (rne (x / 2 powr (of_int \<lfloor>log 2 x\<rfloor> - 52)))"
  using assms by (simp add: fl_def Let_def)

lemma fl_neg: "fl (- x) = - fl x"
  by (simp add: fl_def Let_def sgn_minus)

lemma fl_zero: "fl 0 = 0"
  by (simp add: fl_def)

lemma fl_pos_bounds:
  fixes x :: real
  assumes "0 < x"
  shows "2 powr of_int \<lfloor>log 2 x\<rfloor> \<le> fl x" "fl x \<le> 2 powr (of_int \<lfloor>log 2 x\<rfloor> + 1)"
proof -
  let ?e = "of_int \<lfloor>log 2 x\<rfloor> :: real"
  let ?q = "2 powr (?e - 52)"
  have q: "?q * 2 ^ 52 = 2 powr ?e" "?q * 2 ^ 53 = 2 powr (?e + 1)"
    by (simp_all add: powr_diff powr_add)
  have qpos: "0 < ?q" by simp
  from scaled_range(1) [OF assms] have "(2 ^ 52 :: int) \<le> rne (x / ?q)"
    by (intro rne_ge) simp
  then have "(2 ^ 52 :: real) \<le> of_int (rne (x / ?q))" by (metis of_int_le_iff of_int_numeral of_int_power)
  then have "?q * 2 ^ 52 \<le> ?q * of_int (rne (x / ?q))" using qpos by (simp only: mult_le_cancel_left_pos)
  then show "2 powr ?e \<le> fl x" unfolding fl_pos_eq [OF assms] q .
  from scaled_range(2) [OF assms] have "rne (x / ?q) \<le> (2 ^ 53 :: int)"
    by (intro rne_le) simp
  then have "of_int (rne (x / ?q)) \<le> (2 ^ 53 :: real)" by (metis of_int_le_iff of_int_numeral of_int_power)
  then have "?q * of_int (rne (x / ?q)) \<le> ?q * 2 ^ 53" using qpos by (simp only: mult_le_cancel_left_pos)
  then show "fl x \<le> 2 powr (?e + 1)" unfolding fl_pos_eq [OF assms] q .
qed

lemma fl_pos: "0 < x \<Longrightarrow> 0 < fl x"
proof -
  assume "0 < x"
  from fl_pos_bounds(1) [OF this] have "2 powr of_int \<lfloor>log 2 x\<rfloor> \<le> fl x" .
  moreover have "0 < (2::real) powr of_int \<lfloor>log 2 x\<rfloor>" by simp
  ultimately show ?thesis by linarith
qed

lemma fl_mono_pos:
  fixes x y :: real
  assumes "0 < x" "x \<le> y"
  shows "fl x \<le> fl y"
proof -
  from assms have y: "0 < y" by simp
  let ?ex = "\<lfloor>log 2 x\<rfloor>" and ?ey = "\<lfloor>log 2 y\<rfloor>"
  from assms y have "log 2 x \<le> log 2 y" by simp
  then have e: "?ex \<le> ?ey" by (rule floor_mono)
  show ?thesis
  proof (cases "?ex = ?ey")
    case True
    let ?q = "2 powr (of_int ?ex - 52) :: real"
    have qpos: "0 < ?q" by simp
    from assms have "x / ?q \<le> y / ?q" by (simp add: divide_right_mono)
    then have "rne (x / ?q) \<le> rne (y / ?q)" by (rule rne_mono)
    then have "?q * of_int (rne (x / ?q)) \<le> ?q * of_int (rne (y / ?q))"
      using qpos by simp
    then show ?thesis unfolding fl_pos_eq [OF assms(1)] fl_pos_eq [OF y] True .
  next
    case False
    with e have "?ex + 1 \<le> ?ey" by simp
    then have "(of_int ?ex + 1 :: real) \<le> of_int ?ey" by (metis of_int_1 of_int_add of_int_le_iff)
    then have "(2::real) powr (of_int ?ex + 1) \<le> 2 powr of_int ?ey" by (simp only: powr_le_cancel_iff) 
    with fl_pos_bounds(2) [OF assms(1)] fl_pos_bounds(1) [OF y] show ?thesis by linarith
  qed
qed

lemma fl_mono: "x \<le> y \<Longrightarrow> fl x \<le> fl y"
proof -
  assume xy: "x \<le> y"
  consider "0 < x" | "x = 0" "0 < y" | "x = 0" "y = 0" | "x < 0" "0 < y" | "x < 0" "y = 0" | "x < 0" "y < 0"
    using xy by linarith
  then show ?thesis
  proof cases
    case 1 then show ?thesis using xy by (rule fl_mono_pos)
  next
    case 2 then show ?thesis using fl_pos [of y] by (simp add: fl_zero)
  next
    case 3 then show ?thesis by simp
  next
    case 4
    then have "0 < fl (- x)" "0 < fl y" by (simp_all add: fl_pos)
    then show ?thesis by (simp add: fl_neg)
  next
    case 5
    then have "0 < fl (- x)" by (simp add: fl_pos)
    with 5 show ?thesis by (simp add: fl_neg fl_zero)
  next
    case 6
    then have "fl (- y) \<le> fl (- x)" using xy by (intro fl_mono_pos) simp_all
    then show ?thesis by (simp add: fl_neg)
  qed
qed

lemma fl_dyadic_pos:
  fixes m :: int and j :: nat
  assumes "0 < m" "m < 2 ^ 53"
  shows "fl (of_int m / 2 ^ j) = of_int m / 2 ^ j"
proof -
  let ?x = "of_int m / 2 ^ j :: real"
  have x: "0 < ?x" using assms by simp
  define e where "e = \<lfloor>log 2 ?x\<rfloor>"
  let ?q = "2 powr (of_int e - 52) :: real"
  have "2 powr of_int e \<le> ?x" unfolding e_def by (rule binade(1) [OF x])
  also have "?x < 2 ^ 53 / 2 ^ j"
  proof -
    from assms have "(of_int m :: real) < 2 ^ 53" by (metis of_int_less_iff of_int_numeral of_int_power)
    then show ?thesis by (simp add: divide_strict_right_mono)
  qed
  also have "\<dots> = 2 powr (53 - real j)" by (simp add: powr_diff powr_realpow)
  finally have "of_int e < 53 - real j" by (simp only: powr_less_cancel_iff) 
  then have "e < 53 - int j" by linarith
  then have n: "0 \<le> 52 - int j - e" by simp
  define n where "n = nat (52 - int j - e)"
  have pj: "(2::real) ^ j = 2 powr real j" by (simp add: powr_realpow)
  have "?x / ?q = of_int m * 2 powr (52 - real j - of_int e)"
    unfolding powr_diff pj by (simp add: field_simps)
  also have "52 - real j - of_int e = real n" using n by (simp add: n_def)
  also have "of_int m * 2 powr real n = of_int (m * 2 ^ n)" by (simp add: powr_realpow)
  finally have sc: "?x / ?q = of_int (m * 2 ^ n)" .
  have "fl ?x = ?q * of_int (rne (?x / ?q))" unfolding e_def by (rule fl_pos_eq [OF x])
  also have "\<dots> = ?q * (?x / ?q)" unfolding sc rne_of_int ..
  also have "\<dots> = ?x" by simp
  finally show ?thesis .
qed

lemma fl_dyadic:
  fixes m :: int and j :: nat
  assumes "\<bar>m\<bar> < 2 ^ 53"
  shows "fl (of_int m / 2 ^ j) = of_int m / 2 ^ j"
proof -
  consider "0 < m" | "m = 0" | "m < 0" by linarith
  then show ?thesis
  proof cases
    case 1 with assms show ?thesis by (intro fl_dyadic_pos) simp_all
  next
    case 2 then show ?thesis by (simp add: fl_zero)
  next
    case 3
    with assms have "fl (of_int (- m) / 2 ^ j) = of_int (- m) / 2 ^ j"
      by (intro fl_dyadic_pos) simp_all
    then show ?thesis using fl_neg [of "of_int m / 2 ^ j"] by simp
  qed
qed


lemma rne_nearest:
  assumes "\<bar>y - of_int m\<bar> < 1 / 2"
  shows "rne y = m"
proof (cases "of_int m \<le> y")
  case True
  with assms have "of_int m \<le> y" "y < of_int m + 1" by linarith+
  then have f: "\<lfloor>y\<rfloor> = m" by (rule floor_unique)
  from True assms have "y - of_int m < 1 / 2" by linarith
  with f show ?thesis by (simp add: rne_def Let_def)
next
  case False
  with assms have "of_int (m - 1) \<le> y" "y < of_int (m - 1) + 1" by simp_all
  then have f: "\<lfloor>y\<rfloor> = m - 1" by (rule floor_unique)
  from False assms have "1 / 2 < y - of_int (m - 1)" by simp
  with f show ?thesis by (simp add: rne_def Let_def)
qed

lemma fl_eval:
  fixes x :: real and m :: int and j :: nat
  assumes "2 ^ 52 \<le> x * 2 ^ j" "x * 2 ^ j < 2 ^ 53" "\<bar>x * 2 ^ j - of_int m\<bar> < 1 / 2"
  shows "fl x = of_int m / 2 ^ j"
proof -
  have p: "0 < (2::real) ^ j" by simp
  have "(0::real) < 2 ^ 52" by simp
  with assms(1) have "0 < x * 2 ^ j" by linarith
  then have x: "0 < x" by (simp add: zero_less_mult_iff)
  have pj: "(2::real) ^ j = 2 powr real j" by (simp add: powr_realpow)
  have lo: "2 powr (52 - real j) \<le> x"
    using assms(1) unfolding powr_diff pj [symmetric] by (simp add: field_simps)
  have hi: "x < 2 powr (52 - real j + 1)"
  proof -
    have "x < 2 ^ 53 / 2 ^ j" using assms(2) p by (simp add: pos_less_divide_eq)
    also have "\<dots> = 2 powr (52 - real j + 1)"
      unfolding pj by (simp add: powr_diff powr_add)
    finally show ?thesis .
  qed
  have "\<lfloor>log 2 x\<rfloor> = 52 - int j"
    using floor_log_eq_powr_iff [of x 2 "52 - int j"] x lo hi by simp
  then have e: "of_int \<lfloor>log 2 x\<rfloor> - 52 = - real j" by simp
  have q: "2 powr (- real j) = 1 / 2 ^ j" by (simp add: powr_minus pj inverse_eq_divide)
  have "fl x = 1 / 2 ^ j * of_int (rne (x / (1 / 2 ^ j)))"
    unfolding fl_pos_eq [OF x] e q ..
  also have "x / (1 / 2 ^ j) = x * 2 ^ j" by simp
  also have "rne (x * 2 ^ j) = m" using assms(3) by (rule rne_nearest)
  finally show ?thesis by simp
qed

lemma fl_of_int: "\<bar>m\<bar> < 2 ^ 53 \<Longrightarrow> fl (of_int m) = of_int m"
  using fl_dyadic [of m 0] by simp

lemma fl_consts:
  "fl 1 = 1" "fl 2 = 2" "fl 3 = 3" "fl 5 = 5" "fl 6 = 6" "fl 50 = 50" "fl 100 = 100"
  "fl 360 = 360" "fl (- 1) = - 1" "fl (1 / 2) = 1 / 2"
  using fl_of_int [of 1] fl_of_int [of 2] fl_of_int [of 3] fl_of_int [of 5] fl_of_int [of 6]
    fl_of_int [of 50] fl_of_int [of 100] fl_of_int [of 360] fl_of_int [of "- 1"]
    fl_dyadic [of 1 1]
  by simp_all

lemma fl_between:
  assumes "a \<le> x" "x \<le> b" "fl a = a" "fl b = b"
  shows "a \<le> fl x" "fl x \<le> b"
  using fl_mono [OF assms(1)] fl_mono [OF assms(2)] assms(3,4) by simp_all

lemma fl_unit: "0 \<le> x \<Longrightarrow> x \<le> 1 \<Longrightarrow> 0 \<le> fl x \<and> fl x \<le> 1"
  using fl_between [of 0 x 1] by (simp add: fl_zero fl_consts)

lemma Math_round_eq:
  assumes "real n - 1 / 2 \<le> v" "v < real n + 1 / 2"
  shows "Math_round v = real n"
proof -
  from assms have "of_int (int n) \<le> v + 1 / 2" "v + 1 / 2 < of_int (int n) + 1" by simp_all
  then have "\<lfloor>v + 1 / 2\<rfloor> = int n" by (rule floor_unique)
  then show ?thesis by (simp add: Math_round_def)
qed


subsection \<open>HSL\<close>

text \<open>
  No division of \<open>rgbToHsl\<close> is by zero: for channels between 0 and 255 with
  \<open>max \<noteq> min\<close> the divisor \<open>d\<close> is positive and the two divisors of the saturation are
  at least \<open>d\<close> (\<open>hsl_divisors\<close>).
\<close>

lemma Math_round_bounded:
  assumes "0 \<le> v" "v \<le> of_int k"
  shows "\<exists>n::int. Math_round v = of_int n \<and> 0 \<le> n \<and> n \<le> k"
proof -
  from assms(1) have "0 \<le> \<lfloor>v + 1 / 2\<rfloor>" by simp
  moreover from assms(2) have "v + 1 / 2 < of_int (k + 1)" by simp
  then have "\<lfloor>v + 1 / 2\<rfloor> < k + 1" by (simp only: floor_less_iff)
  ultimately show ?thesis
    unfolding Math_round_def by (intro exI [of _ "\<lfloor>v + 1 / 2\<rfloor>"]) simp
qed

lemma hsl_divisors:
  fixes mx mn :: real
  assumes "0 \<le> mn" "mn < mx" "mx \<le> 1"
  shows "0 < fl (mx - mn)" "fl (mx - mn) \<le> fl (mx + mn)" "fl (mx - mn) \<le> fl (fl (2 - mx) - mn)"
proof -
  from assms show "0 < fl (mx - mn)" by (intro fl_pos) simp
  from assms show "fl (mx - mn) \<le> fl (mx + mn)" by (intro fl_mono) simp
  from assms have "1 \<le> fl (2 - mx)" using fl_mono [of 1 "2 - mx"] by (simp add: fl_consts)
  with assms show "fl (mx - mn) \<le> fl (fl (2 - mx) - mn)" by (intro fl_mono) simp
qed

lemma hsl_ratio:
  fixes x y mx mn :: real
  assumes "mn < mx" "mn \<le> x" "x \<le> mx" "mn \<le> y" "y \<le> mx"
  shows "- 1 \<le> fl (fl (x - y) / fl (mx - mn))" "fl (fl (x - y) / fl (mx - mn)) \<le> 1"
    "x < y \<Longrightarrow> fl (fl (x - y) / fl (mx - mn)) \<le> 0"
    "\<not> x < y \<Longrightarrow> 0 \<le> fl (fl (x - y) / fl (mx - mn))"
proof -
  let ?d = "fl (mx - mn)"
  from assms have d: "0 < ?d" by (intro fl_pos) simp
  from assms have "fl (x - y) \<le> ?d" by (intro fl_mono) simp
  moreover from assms have "fl (- (mx - mn)) \<le> fl (x - y)" by (intro fl_mono) simp
  then have "- ?d \<le> fl (x - y)" by (simp only: fl_neg)
  ultimately have "- 1 \<le> fl (x - y) / ?d" "fl (x - y) / ?d \<le> 1"
    using d by (simp_all add: field_simps)
  then show "- 1 \<le> fl (fl (x - y) / ?d)" "fl (fl (x - y) / ?d) \<le> 1"
    using fl_between [of "- 1" "fl (x - y) / ?d" 1] by (simp_all add: fl_consts)
  show "fl (fl (x - y) / ?d) \<le> 0" if "x < y"
  proof -
    from that have "fl (x - y) \<le> fl 0" by (intro fl_mono) simp
    then have "fl (x - y) / ?d \<le> 0" using d by (simp add: fl_zero divide_le_0_iff)
    then have "fl (fl (x - y) / ?d) \<le> fl 0" by (rule fl_mono)
    then show ?thesis by (simp add: fl_zero)
  qed
  show "0 \<le> fl (fl (x - y) / ?d)" if "\<not> x < y"
  proof -
    from that have "fl 0 \<le> fl (x - y)" by (intro fl_mono) simp
    then have "0 \<le> fl (x - y) / ?d" using d by (simp add: fl_zero)
    then have "fl 0 \<le> fl (fl (x - y) / ?d)" by (rule fl_mono)
    then show ?thesis by (simp add: fl_zero)
  qed
qed

lemma hsl_sixth:
  assumes "0 \<le> t" "t \<le> 6"
  shows "0 \<le> fl (fl t / 6)" "fl (fl t / 6) \<le> 1"
proof -
  from assms have "0 \<le> fl t" "fl t \<le> 6"
    using fl_between [of 0 t 6] by (simp_all add: fl_zero fl_consts)
  then have "0 \<le> fl t / 6" "fl t / 6 \<le> 1" by simp_all
  then show "0 \<le> fl (fl t / 6)" "fl (fl t / 6) \<le> 1"
    using fl_unit [of "fl t / 6"] by simp_all
qed

lemma rgbToHsl_rounded:
  fixes r g b :: real
  assumes "0 \<le> r" "r \<le> 255" "0 \<le> g" "g \<le> 255" "0 \<le> b" "b \<le> 255"
  shows "\<exists>vh vs vl. rgbToHsl r g b = (Math_round vh, Math_round vs, Math_round vl)
           \<and> 0 \<le> vh \<and> vh \<le> 360 \<and> 0 \<le> vs \<and> vs \<le> 100 \<and> 0 \<le> vl \<and> vl \<le> 100"
proof -
  define R G B where "R = fl (r / 255)" and "G = fl (g / 255)" and "B = fl (b / 255)"
  define mx mn where "mx = max (max R G) B" and "mn = min (min R G) B"
  define l d where "l = fl (fl (mx + mn) / 2)" and "d = fl (mx - mn)"
  define s where "s = (if mx \<noteq> mn
               then (if l > 0.5 then fl (d / fl (fl (2 - mx) - mn)) else fl (d / fl (mx + mn)))
               else 0)"
  define h where "h = (if mx \<noteq> mn
               then (if mx = R then fl (fl (fl (fl (G - B) / d) + (if G < B then 6 else 0)) / 6)
                     else if mx = G then fl (fl (fl (fl (B - R) / d) + 2) / 6)
                     else if mx = B then fl (fl (fl (fl (R - G) / d) + 4) / 6)
                     else 0)
               else 0)"
  have eq: "rgbToHsl r g b =
      (Math_round (fl (h * 360)), Math_round (fl (s * 100)), Math_round (fl (l * 100)))"
    unfolding rgbToHsl_def Let_def h_def s_def l_def d_def mx_def mn_def R_def G_def B_def ..
  from assms have rng: "0 \<le> R" "R \<le> 1" "0 \<le> G" "G \<le> 1" "0 \<le> B" "B \<le> 1"
    unfolding R_def G_def B_def
    using fl_unit [of "r / 255"] fl_unit [of "g / 255"] fl_unit [of "b / 255"] by simp_all
  then have mm: "0 \<le> mn" "mn \<le> mx" "mx \<le> 1"
    "mn \<le> R" "R \<le> mx" "mn \<le> G" "G \<le> mx" "mn \<le> B" "B \<le> mx"
    by (simp_all add: mx_def mn_def)
  have l: "0 \<le> l" "l \<le> 1"
  proof -
    from mm have "0 \<le> fl (mx + mn)" "fl (mx + mn) \<le> 2"
      using fl_between [of 0 "mx + mn" 2] by (simp_all add: fl_zero fl_consts)
    then have "0 \<le> fl (mx + mn) / 2" "fl (mx + mn) / 2 \<le> 1" by simp_all
    then show "0 \<le> l" "l \<le> 1" unfolding l_def using fl_unit [of "fl (mx + mn) / 2"] by simp_all
  qed
  have s: "0 \<le> s \<and> s \<le> 1"
  proof (cases "mx = mn")
    case True then show ?thesis by (simp add: s_def)
  next
    case False
    with mm have lt: "mn < mx" by simp
    note dv = hsl_divisors [OF mm(1) lt mm(3), folded d_def]
    show ?thesis
    proof (cases "l > 0.5")
      case True
      from dv have "0 \<le> d / fl (fl (2 - mx) - mn)" "d / fl (fl (2 - mx) - mn) \<le> 1"
        by (simp_all add: divide_le_eq_1)
      then have "0 \<le> fl (d / fl (fl (2 - mx) - mn)) \<and> fl (d / fl (fl (2 - mx) - mn)) \<le> 1"
        by (rule fl_unit)
      with False True show ?thesis by (simp add: s_def)
    next
      case F2: False
      from dv have "0 \<le> d / fl (mx + mn)" "d / fl (mx + mn) \<le> 1"
        by (simp_all add: divide_le_eq_1)
      then have "0 \<le> fl (d / fl (mx + mn)) \<and> fl (d / fl (mx + mn)) \<le> 1"
        by (rule fl_unit)
      with False F2 show ?thesis by (simp add: s_def)
    qed
  qed
  have h: "0 \<le> h \<and> h \<le> 1"
  proof (cases "mx = mn")
    case True then show ?thesis by (simp add: h_def)
  next
    case False
    with mm have lt: "mn < mx" by simp
    note gb = hsl_ratio [OF lt mm(6,7,8,9), folded d_def]
    note br = hsl_ratio [OF lt mm(8,9,4,5), folded d_def]
    note rg = hsl_ratio [OF lt mm(4,5,6,7), folded d_def]
    have t1: "0 \<le> fl (fl (G - B) / d) + (if G < B then 6 else 0)"
      "fl (fl (G - B) / d) + (if G < B then 6 else 0) \<le> 6"
      using gb by (cases "G < B"; simp)+
    have t2: "0 \<le> fl (fl (B - R) / d) + 2" "fl (fl (B - R) / d) + 2 \<le> 6"
      using br(1,2) by simp_all
    have t3: "0 \<le> fl (fl (R - G) / d) + 4" "fl (fl (R - G) / d) + 4 \<le> 6"
      using rg(1,2) by simp_all
    from False hsl_sixth [OF t1] hsl_sixth [OF t2] hsl_sixth [OF t3]
    show ?thesis unfolding h_def by simp
  qed
  have vh: "0 \<le> fl (h * 360)" "fl (h * 360) \<le> 360"
    using h fl_between [of 0 "h * 360" 360] by (simp_all add: fl_zero fl_consts)
  have vs: "0 \<le> fl (s * 100)" "fl (s * 100) \<le> 100"
    using s fl_between [of 0 "s * 100" 100] by (simp_all add: fl_zero fl_consts)
  have vl: "0 \<le> fl (l * 100)" "fl (l * 100) \<le> 100"
    using l fl_between [of 0 "l * 100" 100] by (simp_all add: fl_zero fl_consts)
  from eq vh vs vl show ?thesis by blast
qed


text \<open>
  The rounding decides the result where exact arithmetic would meet a tie of \<open>Math.round\<close>:
  at \<open>(0, 13, 40)\<close> the exact \<open>h * 360\<close> is 220.5 and the rounded one
  \<open>7758154045587455 / 2^45\<close>, just below it, so the hue is 220; at \<open>(7, 7, 105)\<close> the
  exact \<open>s * 100\<close> is 87.5 and the rounded one just below it, so the saturation is 87.
\<close>

lemma rgbToHsl_255_0_1: "rgbToHsl 255 0 1 = (360, 100, 50)"
proof -
  define R G B where "R = fl (255 / 255)" and "G = fl (0 / 255)" and "B = fl (1 / 255)"
  define mx mn where "mx = max (max R G) B" and "mn = min (min R G) B"
  define l d where "l = fl (fl (mx + mn) / 2)" and "d = fl (mx - mn)"
  define s where "s = (if mx \<noteq> mn
               then (if l > 0.5 then fl (d / fl (fl (2 - mx) - mn)) else fl (d / fl (mx + mn)))
               else 0)"
  define h where "h = (if mx \<noteq> mn
               then (if mx = R then fl (fl (fl (fl (G - B) / d) + (if G < B then 6 else 0)) / 6)
                     else if mx = G then fl (fl (fl (fl (B - R) / d) + 2) / 6)
                     else if mx = B then fl (fl (fl (fl (R - G) / d) + 4) / 6)
                     else 0)
               else 0)"
  have eq: "rgbToHsl 255 0 1 =
      (Math_round (fl (h * 360)), Math_round (fl (s * 100)), Math_round (fl (l * 100)))"
    unfolding rgbToHsl_def Let_def h_def s_def l_def d_def mx_def mn_def R_def G_def B_def ..
  have R: "R = 1" and G: "G = 0" by (simp_all add: R_def G_def fl_zero fl_consts)
  have B: "1 / 256 \<le> B" "B \<le> 1 / 128"
    unfolding B_def using fl_between [of "1 / 256" "1 / 255" "1 / 128"]
      fl_dyadic [of 1 8] fl_dyadic [of 1 7] by simp_all
  have mx: "mx = 1" and mn: "mn = 0" using B by (simp_all add: mx_def mn_def R G)
  have l: "l = 1 / 2" by (simp add: l_def mx mn fl_consts)
  have d: "d = 1" by (simp add: d_def mx mn fl_consts)
  have s: "s = 1" by (simp add: s_def mx mn l d fl_consts)
  define t1 where "t1 = fl (fl (0 - B) / 1)"
  define t3 where "t3 = fl (t1 + 6)"
  have hv: "h = fl (t3 / 6)" using B by (simp add: h_def mx mn R G d t1_def t3_def)
  have "- (1 / 128) \<le> fl (0 - B)" "fl (0 - B) \<le> - (1 / 256)"
    using B fl_between [of "- (1 / 128)" "0 - B" "- (1 / 256)"]
      fl_dyadic [of "- 1" 8] fl_dyadic [of "- 1" 7] by simp_all
  then have t1: "- (1 / 128) \<le> t1" "t1 \<le> - (1 / 256)"
    unfolding t1_def using fl_between [of "- (1 / 128)" "fl (0 - B) / 1" "- (1 / 256)"]
      fl_dyadic [of "- 1" 8] fl_dyadic [of "- 1" 7] by simp_all
  then have t3: "767 / 128 \<le> t3" "t3 \<le> 6"
    unfolding t3_def using fl_between [of "767 / 128" "t1 + 6" 6]
      fl_dyadic [of 767 7] by (simp_all add: fl_consts)
  then have h: "8181 / 8192 \<le> h" "h \<le> 1"
    unfolding hv using fl_between [of "8181 / 8192" "t3 / 6" 1]
      fl_dyadic [of 8181 13] by (simp_all add: fl_consts)
  then have "23009 / 64 \<le> fl (h * 360)" "fl (h * 360) \<le> 360"
    using fl_between [of "23009 / 64" "h * 360" 360]
      fl_dyadic [of 23009 6] by (simp_all add: fl_consts)
  then have hue: "Math_round (fl (h * 360)) = 360"
    using Math_round_eq [of 360 "fl (h * 360)"] by simp
  have "Math_round (fl (s * 100)) = 100" "Math_round (fl (l * 100)) = 50"
    by (simp_all add: s l fl_consts Math_round_def)
  with eq hue show ?thesis by simp
qed

lemma rgbToHsl_0_13_40: "rgbToHsl 0 13 40 = (220, 100, 8)"
proof -
  define R G B where "R = fl (0 / 255)" and "G = fl (13 / 255)" and "B = fl (40 / 255)"
  define mx mn where "mx = max (max R G) B" and "mn = min (min R G) B"
  define l d where "l = fl (fl (mx + mn) / 2)" and "d = fl (mx - mn)"
  define s where "s = (if mx \<noteq> mn
               then (if l > 0.5 then fl (d / fl (fl (2 - mx) - mn)) else fl (d / fl (mx + mn)))
               else 0)"
  define h where "h = (if mx \<noteq> mn
               then (if mx = R then fl (fl (fl (fl (G - B) / d) + (if G < B then 6 else 0)) / 6)
                     else if mx = G then fl (fl (fl (fl (B - R) / d) + 2) / 6)
                     else if mx = B then fl (fl (fl (fl (R - G) / d) + 4) / 6)
                     else 0)
               else 0)"
  have eq: "rgbToHsl 0 13 40 =
      (Math_round (fl (h * 360)), Math_round (fl (s * 100)), Math_round (fl (l * 100)))"
    unfolding rgbToHsl_def Let_def h_def s_def l_def d_def mx_def mn_def R_def G_def B_def ..
  have R: "R = 0" by (simp add: R_def fl_zero)
  have G: "G = 7347048803867162 / 2 ^ 57"
    unfolding G_def using fl_eval [of "13 / 255" 57 7347048803867162] by simp
  have B: "B = 5651576002974740 / 2 ^ 55"
    unfolding B_def using fl_eval [of "40 / 255" 55 5651576002974740] by simp
  have flB: "fl B = B" unfolding B using fl_dyadic [of 5651576002974740 55] by simp
  have flG: "fl G = G" unfolding G using fl_dyadic [of 7347048803867162 57] by simp
  have mx: "mx = B" and mn: "mn = 0" by (simp_all add: mx_def mn_def R G B)
  have l: "l = 5651576002974740 / 2 ^ 56"
    using fl_dyadic [of 5651576002974740 56] by (simp add: l_def mx mn flB) (simp add: B)
  have d: "d = B" by (simp add: d_def mx mn flB)
  have Bpos: "0 < B" "B \<noteq> 0" by (simp_all add: B)
  have s: "s = 1" using Bpos by (simp add: s_def mx mn l d flB fl_consts)
  have q: "fl (G / B) = 5854679515581645 / 2 ^ 54"
    unfolding G B using fl_eval [of "7347048803867162 / 2 ^ 57 / (5651576002974740 / 2 ^ 55)" 54
      5854679515581645] by simp
  have t1: "fl (fl (R - G) / d) = - (5854679515581645 / 2 ^ 54)"
  proof -
    have "fl (R - G) = - G" using fl_neg [of G] by (simp add: R flG)
    then have "fl (fl (R - G) / d) = fl (- (G / B))" by (simp add: d)
    then show ?thesis by (simp only: fl_neg q)
  qed
  have t2: "fl (- (5854679515581645 / 2 ^ 54) + 4) = 8275364315293286 / 2 ^ 51"
    using fl_eval [of "- (5854679515581645 / 2 ^ 54) + 4" 51 8275364315293286] by simp
  have t3: "fl (8275364315293286 / 2 ^ 51 / 6) = 5516909543528857 / 2 ^ 53"
    using fl_eval [of "8275364315293286 / 2 ^ 51 / 6" 53 5516909543528857] by simp
  have t4: "fl (5516909543528857 / 2 ^ 53 * 360) = 7758154045587455 / 2 ^ 45"
    using fl_eval [of "5516909543528857 / 2 ^ 53 * 360" 45 7758154045587455] by simp
  have ne: "B \<noteq> R" "B \<noteq> G" by (simp_all add: R G B)
  have hv: "h = 5516909543528857 / 2 ^ 53"
    using Bpos ne by (simp only: h_def mx mn if_True if_False t1 t2 t3 simp_thms)
  have hue: "Math_round (fl (h * 360)) = 220"
    unfolding hv t4 using Math_round_eq [of 220 "7758154045587455 / 2 ^ 45"] by simp
  have t5: "fl (5651576002974740 / 2 ^ 56 * 100) = 8830587504648031 / 2 ^ 50"
    using fl_eval [of "5651576002974740 / 2 ^ 56 * 100" 50 8830587504648031] by simp
  have lig: "Math_round (fl (l * 100)) = 8"
    unfolding l t5 using Math_round_eq [of 8 "8830587504648031 / 2 ^ 50"] by simp
  have "Math_round (fl (s * 100)) = 100" by (simp add: s fl_consts Math_round_def)
  with eq hue lig show ?thesis by simp
qed

lemma rgbToHsl_7_7_105: "rgbToHsl 7 7 105 = (240, 87, 22)"
proof -
  define R G B where "R = fl (7 / 255)" and "G = fl (7 / 255)" and "B = fl (105 / 255)"
  define mx mn where "mx = max (max R G) B" and "mn = min (min R G) B"
  define l d where "l = fl (fl (mx + mn) / 2)" and "d = fl (mx - mn)"
  define s where "s = (if mx \<noteq> mn
               then (if l > 0.5 then fl (d / fl (fl (2 - mx) - mn)) else fl (d / fl (mx + mn)))
               else 0)"
  define h where "h = (if mx \<noteq> mn
               then (if mx = R then fl (fl (fl (fl (G - B) / d) + (if G < B then 6 else 0)) / 6)
                     else if mx = G then fl (fl (fl (fl (B - R) / d) + 2) / 6)
                     else if mx = B then fl (fl (fl (fl (R - G) / d) + 4) / 6)
                     else 0)
               else 0)"
  have eq: "rgbToHsl 7 7 105 =
      (Math_round (fl (h * 360)), Math_round (fl (s * 100)), Math_round (fl (l * 100)))"
    unfolding rgbToHsl_def Let_def h_def s_def l_def d_def mx_def mn_def R_def G_def B_def ..
  have R: "R = 7912206404164636 / 2 ^ 58"
    unfolding R_def using fl_eval [of "7 / 255" 58 7912206404164636] by simp
  have G: "G = R" by (simp add: G_def R_def)
  have B: "B = 7417693503904346 / 2 ^ 54"
    unfolding B_def using fl_eval [of "105 / 255" 54 7417693503904346] by simp
  have mx: "mx = B" and mn: "mn = R" by (simp_all add: mx_def mn_def G) (simp_all add: R B)
  have ne: "B \<noteq> R" by (simp add: R B)
  have sm: "fl (B + R) = 7912206404164636 / 2 ^ 54"
    unfolding R B using fl_eval [of "7417693503904346 / 2 ^ 54 + 7912206404164636 / 2 ^ 58" 54
      7912206404164636] by simp
  have l: "l = 7912206404164636 / 2 ^ 55"
    unfolding l_def mx mn sm using fl_dyadic [of 7912206404164636 55] by simp
  have d: "d = 6923180603644056 / 2 ^ 54"
    unfolding d_def mx mn R B
    using fl_eval [of "7417693503904346 / 2 ^ 54 - 7912206404164636 / 2 ^ 58" 54
      6923180603644056] by simp
  have half: "\<not> l > 0.5" by (simp add: l)
  have sq: "fl (d / fl (B + R)) = 7881299347898367 / 2 ^ 53"
    unfolding d sm
    using fl_eval [of "6923180603644056 / 2 ^ 54 / (7912206404164636 / 2 ^ 54)" 53
      7881299347898367] by simp
  have s: "s = 7881299347898367 / 2 ^ 53"
    using ne half by (simp only: s_def mx mn if_True if_False sq simp_thms)
  have s100: "fl (s * 100) = 6157265115545599 / 2 ^ 46"
    unfolding s using fl_eval [of "7881299347898367 / 2 ^ 53 * 100" 46 6157265115545599] by simp
  have sat: "Math_round (fl (s * 100)) = 87"
    unfolding s100 using Math_round_eq [of 87 "6157265115545599 / 2 ^ 46"] by simp
  have l100: "fl (l * 100) = 6181411253253622 / 2 ^ 48"
    unfolding l using fl_eval [of "7912206404164636 / 2 ^ 55 * 100" 48 6181411253253622] by simp
  have lig: "Math_round (fl (l * 100)) = 22"
    unfolding l100 using Math_round_eq [of 22 "6181411253253622 / 2 ^ 48"] by simp
  have four: "fl (fl (fl (R - G) / d) + 4) = 4"
    using fl_of_int [of 4] by (simp add: G fl_zero)
  have sixth: "fl (4 / 6) = 6004799503160661 / 2 ^ 53"
    using fl_eval [of "4 / 6" 53 6004799503160661] by simp
  have hv: "h = 6004799503160661 / 2 ^ 53"
    using ne by (simp only: h_def mx mn G if_True if_False four [unfolded G] sixth simp_thms)
  have h360: "fl (h * 360) = 240"
    unfolding hv using fl_eval [of "6004799503160661 / 2 ^ 53 * 360" 45 8444249301319680] by simp
  have hue: "Math_round (fl (h * 360)) = 240"
    unfolding h360 by (simp add: Math_round_def)
  from eq hue sat lig show ?thesis by simp
qed

text \<open>
  Claim C9, as amended. For integer channels between 0 and 255, \<open>rgbToHsl\<close> returns integers
  \<open>h\<close> in \<open>[0, 360]\<close>, \<open>s\<close> in \<open>[0, 100]\<close> and \<open>l\<close> in \<open>[0, 100]\<close>. The hue 360 is reached:
  the claim's bound \<open>h < 360\<close> fails at \<open>(255, 0, 1)\<close>, where \<open>h * 360\<close> is about 359.76
  and \<open>Math.round\<close> gives 360.
\<close>

theorem rgbToHsl_ranges:
  fixes r g b :: nat
  assumes "r \<le> 255" "g \<le> 255" "b \<le> 255"
  shows "\<exists>h s l :: int. rgbToHsl (real r) (real g) (real b) = (of_int h, of_int s, of_int l) \<and>
           0 \<le> h \<and> h \<le> 360 \<and> 0 \<le> s \<and> s \<le> 100 \<and> 0 \<le> l \<and> l \<le> 100"
proof -
  from assms have "0 \<le> real r" "real r \<le> 255" "0 \<le> real g" "real g \<le> 255"
    "0 \<le> real b" "real b \<le> 255" by simp_all
  from rgbToHsl_rounded [OF this] obtain vh vs vl where
    eq: "rgbToHsl (real r) (real g) (real b) = (Math_round vh, Math_round vs, Math_round vl)"
    and v: "0 \<le> vh" "vh \<le> 360" "0 \<le> vs" "vs \<le> 100" "0 \<le> vl" "vl \<le> 100"
    by blast
  from Math_round_bounded [of vh 360] v obtain hn :: int where
    hn: "Math_round vh = of_int hn" "0 \<le> hn" "hn \<le> 360" by auto
  from Math_round_bounded [of vs 100] v obtain sn :: int where
    sn: "Math_round vs = of_int sn" "0 \<le> sn" "sn \<le> 100" by auto
  from Math_round_bounded [of vl 100] v obtain ln :: int where
    ln: "Math_round vl = of_int ln" "0 \<le> ln" "ln \<le> 100" by auto
  from eq hn sn ln show ?thesis by (intro exI [of _ hn] exI [of _ sn] exI [of _ ln]) simp
qed

theorem rgbToHsl_ranges_witness:
  "(255::nat) \<le> 255 \<and> (0::nat) \<le> 255 \<and> (1::nat) \<le> 255 \<and>
   (\<exists>h s l :: int. rgbToHsl 255 0 1 = (of_int h, of_int s, of_int l) \<and>
      0 \<le> h \<and> h \<le> 360 \<and> 0 \<le> s \<and> s \<le> 100 \<and> 0 \<le> l \<and> l \<le> 100)"
  using rgbToHsl_ranges [of 255 0 1] by simp

theorem rgbToHsl_hue_360_counterexample:
  "rgbToHsl 255 0 1 = (360, 100, 50) \<and> \<not> fst (rgbToHsl 255 0 1) < 360"
  by (simp add: rgbToHsl_255_0_1)

subsection \<open>Chroma compensation\<close>

lemma generateColorScale_base:
  "generateColorScale s = map (colorStopAt (inputChroma s) (inputHue s)) LIGHTNESS_STOPS"
  by (simp add: generateColorScale_def inputChroma_def inputHue_def inputOklch_def split: prod.splits)

lemma colorStopAt_fields:
  "oklch (colorStopAt C H (stp, L)) = (L, C * specChromaMultiplier L, H)"
  "rgb (colorStopAt C H (stp, L)) = oklchToRgb L (C * specChromaMultiplier L) H"
  by (simp_all add: colorStopAt_def Let_def specChromaMultiplier_def split: prod.splits)

lemma powr_24_bounds:
  fixes u :: real
  assumes "0 < u" "u \<le> 1"
  shows "u ^ 3 \<le> u powr 2.4" "u powr 2.4 \<le> u ^ 2"
proof -
  from assms have "u powr 3 \<le> u powr 2.4" by (intro powr_mono') simp_all
  with assms show "u ^ 3 \<le> u powr 2.4" by simp
  from assms have "u powr 2.4 \<le> u powr 2" by (intro powr_mono') simp_all
  with assms show "u powr 2.4 \<le> u ^ 2" by simp
qed

lemma srgbToLinear_power:
  assumes "0.04045 * 255 < c" "c \<le> 255"
  shows "((c / 255 + 0.055) / 1.055) ^ 3 \<le> srgbToLinear c"
    "srgbToLinear c \<le> ((c / 255 + 0.055) / 1.055) ^ 2"
proof -
  let ?u = "(c / 255 + 0.055) / 1.055"
  from assms have u: "0 < ?u" "?u \<le> 1" by simp_all
  from assms have "\<not> c / 255 \<le> 0.04045" by simp
  then have eq: "srgbToLinear c = ?u powr 2.4" by (simp add: srgbToLinear_def Let_def)
  from powr_24_bounds [OF u] eq show "?u ^ 3 \<le> srgbToLinear c" "srgbToLinear c \<le> ?u ^ 2"
    by simp_all
qed

lemma root3_le: "0 \<le> k \<Longrightarrow> x \<le> k ^ 3 \<Longrightarrow> root 3 x \<le> k"
proof -
  assume k: "0 \<le> k" and x: "x \<le> k ^ 3"
  have "root 3 x \<le> root 3 (k ^ 3)" using x by simp
  also have "\<dots> = k" using k by (simp add: real_root_power_cancel)
  finally show ?thesis .
qed

lemma root3_ge: "0 \<le> k \<Longrightarrow> k ^ 3 \<le> x \<Longrightarrow> k \<le> root 3 x"
proof -
  assume k: "0 \<le> k" and x: "k ^ 3 \<le> x"
  have "k = root 3 (k ^ 3)" using k by (simp add: real_root_power_cancel)
  also have "\<dots> \<le> root 3 x" using x by simp
  finally show ?thesis .
qed

lemma blue_chroma_pos: "0 < fst (snd (rgbToOklch 59 130 246))"
proof -
  define lr lg lb where "lr = srgbToLinear 59" and "lg = srgbToLinear 130" and "lb = srgbToLinear 246"
  define l' m' s' where
    "l' = 0.4122214708 * lr + 0.5363325363 * lg + 0.0514459929 * lb" and
    "m' = 0.2119034982 * lr + 0.6806995451 * lg + 0.1073969566 * lb" and
    "s' = 0.0883024619 * lr + 0.2817188376 * lg + 0.6299787005 * lb"
  define l m s where "l = root 3 l'" and "m = root 3 m'" and "s = root 3 s'"
  define a bVal where
    "a = 1.9779984951 * l - 2.4285922050 * m + 0.4505937099 * s" and
    "bVal = 0.0259040371 * l + 0.7827717662 * m - 0.8086757660 * s"
  have C: "fst (snd (rgbToOklch 59 130 246)) = sqrt (a * a + bVal * bVal)"
    unfolding rgbToOklch_def Let_def a_def bVal_def l_def m_def s_def l'_def m'_def s'_def
      lr_def lg_def lb_def by simp
  have lr: "0 \<le> lr" "lr \<le> 0.1"
    using srgbToLinear_power [of 59] unfolding lr_def
    by (simp_all add: power2_eq_square power3_eq_cube)
  have lg: "0 \<le> lg" "lg \<le> 0.29"
    using srgbToLinear_power [of 130] unfolding lg_def
    by (simp_all add: power2_eq_square power3_eq_cube)
  have lb: "0.85 \<le> lb" "lb \<le> 1"
    using srgbToLinear_power [of 246] unfolding lb_def
    by (simp_all add: power2_eq_square power3_eq_cube)
  have "l' \<le> 1 ^ 3" unfolding l'_def using lr lg lb by simp
  then have l: "l \<le> 1" unfolding l_def by (intro root3_le) simp_all
  have "m' \<le> 0.7 ^ 3" unfolding m'_def using lr lg lb by (simp add: power3_eq_cube)
  then have m: "m \<le> 0.7" unfolding m_def by (intro root3_le) simp_all
  have "0.8 ^ 3 \<le> s'" unfolding s'_def using lr lg lb by (simp add: power3_eq_cube)
  then have s: "0.8 \<le> s" unfolding s_def by (intro root3_ge) simp_all
  from l m s have "bVal < 0" unfolding bVal_def by simp
  then have "0 < bVal * bVal" by (simp add: mult_neg_neg)
  then have "0 < a * a + bVal * bVal" by (intro add_nonneg_pos) simp_all
  with C show ?thesis by simp
qed

lemma hexToRgb_blue: "hexToRgb ''#3B82F6'' = (59, 130, 246)"
  by (simp add: hexToRgb_def hexPatternExec_def hexClass_def parseInt16_def digitValue_def)

lemma inputChroma_blue_pos: "0 < inputChroma ''#3B82F6''"
  using blue_chroma_pos by (simp add: inputChroma_def inputOklch_def hexToRgb_blue)

text \<open>
  Claim C5. For every input and every lightness stop with lightness \<open>L\<close>, the chroma that
  \<open>generateColorScale\<close> converts with and stores is the chroma of the parsed input times 0.3
  if \<open>L > 0.9\<close>, times 0.7 if \<open>L < 0.2\<close>, and times 1 otherwise. For \<open>#3B82F6\<close> the chroma
  of stop 50 and that of stop 950 are below that of stop 500.
\<close>

theorem generateColorScale_chroma_compensation:
  "map chroma (generateColorScale s) =
     map (\<lambda>(stp, L). inputChroma s * specChromaMultiplier L) LIGHTNESS_STOPS \<and>
   map rgb (generateColorScale s) =
     map (\<lambda>(stp, L). oklchToRgb L (inputChroma s * specChromaMultiplier L) (inputHue s))
       LIGHTNESS_STOPS \<and>
   step (generateColorScale ''#3B82F6'' ! 0) = 50 \<and>
   step (generateColorScale ''#3B82F6'' ! 5) = 500 \<and>
   step (generateColorScale ''#3B82F6'' ! 10) = 950 \<and>
   chroma (generateColorScale ''#3B82F6'' ! 0) < chroma (generateColorScale ''#3B82F6'' ! 5) \<and>
   chroma (generateColorScale ''#3B82F6'' ! 10) < chroma (generateColorScale ''#3B82F6'' ! 5)"
proof (intro conjI)
  show "map chroma (generateColorScale s) =
     map (\<lambda>(stp, L). inputChroma s * specChromaMultiplier L) LIGHTNESS_STOPS"
    unfolding generateColorScale_base
    by (simp add: chroma_def colorStopAt_fields LIGHTNESS_STOPS_def)
  show "map rgb (generateColorScale s) =
     map (\<lambda>(stp, L). oklchToRgb L (inputChroma s * specChromaMultiplier L) (inputHue s))
       LIGHTNESS_STOPS"
    unfolding generateColorScale_base
    by (simp add: colorStopAt_fields LIGHTNESS_STOPS_def)
  let ?sc = "generateColorScale ''#3B82F6''"
  let ?C = "inputChroma ''#3B82F6''"
  have len: "length LIGHTNESS_STOPS = 11" by (simp add: LIGHTNESS_STOPS_def)
  have nth: "?sc ! i = colorStopAt ?C (inputHue ''#3B82F6'') (LIGHTNESS_STOPS ! i)" if "i < 11" for i
    unfolding generateColorScale_base using that by (simp add: len)
  have e0: "LIGHTNESS_STOPS ! 0 = (50, 0.97)" and e5: "LIGHTNESS_STOPS ! 5 = (500, 0.55)"
    and e10: "LIGHTNESS_STOPS ! 10 = (950, 0.14)"
    by (simp_all add: LIGHTNESS_STOPS_def)
  have c0: "chroma (?sc ! 0) = ?C * 0.3"
    by (simp add: nth e0 chroma_def colorStopAt_fields specChromaMultiplier_def)
  have c5: "chroma (?sc ! 5) = ?C"
    by (simp add: nth e5 chroma_def colorStopAt_fields specChromaMultiplier_def)
  have c10: "chroma (?sc ! 10) = ?C * 0.7"
    by (simp add: nth e10 chroma_def colorStopAt_fields specChromaMultiplier_def)
  show "step (?sc ! 0) = 50" by (simp add: nth e0 step_colorStopAt)
  show "step (?sc ! 5) = 500" by (simp add: nth e5 step_colorStopAt)
  show "step (?sc ! 10) = 950" by (simp add: nth e10 step_colorStopAt)
  show "chroma (?sc ! 0) < chroma (?sc ! 5)" using inputChroma_blue_pos by (simp add: c0 c5)
  show "chroma (?sc ! 10) < chroma (?sc ! 5)" using inputChroma_blue_pos by (simp add: c10 c5)
qed

subsection \<open>Semantic colors\<close>

lemma generateHarmonizedSemantic_synthetic:
  "generateHarmonizedSemantic s baseH influence =
     syntheticHex (normalizeHue (baseH + (inputHue s - baseH) * influence))"
  by (simp add: generateHarmonizedSemantic_def syntheticHex_def harmonizedHue_normalize
      inputHue_def inputOklch_def split: prod.splits)

lemma monotonicScale_generateColorScale: "monotonicScale (generateColorScale s)"
  unfolding monotonicScale_def map_step_generateColorScale map_lightness_generateColorScale
  by (simp add: length_generateColorScale LIGHTNESS_STOPS_def)

text \<open>
  Claim C6. \<open>generateSemanticColors\<close> returns the four scales \<open>success\<close>, \<open>warning\<close>,
  \<open>error\<close> and \<open>info\<close>: each is \<open>generateColorScale\<close> on the hex of the synthetic color with
  \<open>L = 0.55\<close>, \<open>C = 0.15\<close> and the blended hue, for the base hues 145, 70, 25, 250 and the
  influences 0.10, 0.10, 0.08, 0.15. The blended hue lies in \<open>[0, 360)\<close>, and each scale has
  the monotonic-lightness property.
\<close>

theorem generateSemanticColors_scales:
  "generateSemanticColors s =
     \<lparr>success = generateColorScale (syntheticHex (blendedHue 145 0.10 (inputHue s))),
      warning = generateColorScale (syntheticHex (blendedHue 70 0.10 (inputHue s))),
      error = generateColorScale (syntheticHex (blendedHue 25 0.08 (inputHue s))),
      info = generateColorScale (syntheticHex (blendedHue 250 0.15 (inputHue s)))\<rparr> \<and>
   0 \<le> blendedHue baseH influence brandH \<and> blendedHue baseH influence brandH < 360 \<and>
   monotonicScale (success (generateSemanticColors s)) \<and>
   monotonicScale (warning (generateSemanticColors s)) \<and>
   monotonicScale (error (generateSemanticColors s)) \<and>
   monotonicScale (info (generateSemanticColors s))"
proof (intro conjI)
  show "generateSemanticColors s =
     \<lparr>success = generateColorScale (syntheticHex (blendedHue 145 0.10 (inputHue s))),
      warning = generateColorScale (syntheticHex (blendedHue 70 0.10 (inputHue s))),
      error = generateColorScale (syntheticHex (blendedHue 25 0.08 (inputHue s))),
      info = generateColorScale (syntheticHex (blendedHue 250 0.15 (inputHue s)))\<rparr>"
    by (simp add: generateSemanticColors_def generateHarmonizedSemantic_synthetic blendedHue_def)
  show "0 \<le> blendedHue baseH influence brandH" "blendedHue baseH influence brandH < 360"
    using normalizeHue_range by (simp_all add: blendedHue_def)
  show "monotonicScale (success (generateSemanticColors s))"
    "monotonicScale (warning (generateSemanticColors s))"
    "monotonicScale (error (generateSemanticColors s))"
    "monotonicScale (info (generateSemanticColors s))"
    by (simp_all add: generateSemanticColors_def monotonicScale_generateColorScale)
qed

lemma harmonizedHue_identity_in_range:
  assumes "0 \<le> brandH" "brandH < 360" "0 \<le> baseHue" "baseHue < 360"
    "0 \<le> influence" "influence \<le> 1"
  shows "harmonizedHue brandH baseHue influence = baseHue + (brandH - baseHue) * influence"
proof -
  let ?x = "baseHue + (brandH - baseHue) * influence"
  have lo: "0 \<le> ?x"
  proof -
    have "?x = baseHue * (1 - influence) + brandH * influence" by (simp add: algebra_simps)
    with assms show ?thesis by simp
  qed
  have hi: "?x < 360"
  proof (cases "baseHue \<le> brandH")
    case True
    with assms have "(brandH - baseHue) * influence \<le> (brandH - baseHue) * 1"
      by (intro mult_left_mono) simp_all
    with assms show ?thesis by simp
  next
    case False
    with assms have "(brandH - baseHue) * influence \<le> 0"
      by (simp add: mult_le_0_iff)
    with assms show ?thesis by simp
  qed
  from lo hi have "\<lfloor>?x / 360\<rfloor> = 0" by (simp add: floor_eq_iff)
  then have "normalizeHue ?x = ?x" by (simp add: normalizeHue_def)
  then show ?thesis by (simp only: harmonizedHue_normalize)
qed

text \<open>
  Claim C1. For brand hue 350, base hue 10 and influence 0.5 the blended hue is to lie on
  the short arc between 350 and 10, that is in \<open>[350, 360)\<close> or \<open>[0, 10]\<close>. The source
  computes 180, the blend along the long way round, 170 degrees from the brand hue. With
  the arguments of \<open>generateSemanticColors\<close> itself, a brand hue of 350 moves the error hue
  from 25 to 51, away from the brand hue. The remainder of the source's second hue line
  changes nothing for hues in \<open>[0, 360)\<close> and an influence in \<open>[0, 1]\<close>
  (\<open>harmonizedHue_identity_in_range\<close>), so nothing wraps through the 0/360 boundary.
\<close>

theorem harmonizedHue_leaves_short_arc:
  "harmonizedHue 350 10 0.5 = 180 \<and>
   \<not> ((350 \<le> harmonizedHue 350 10 0.5 \<and> harmonizedHue 350 10 0.5 < 360) \<or>
      (0 \<le> harmonizedHue 350 10 0.5 \<and> harmonizedHue 350 10 0.5 \<le> 10)) \<and>
   harmonizedHue 350 25 0.08 = 51"
proof -
  have a: "harmonizedHue 350 10 0.5 = 180"
    by (simp add: harmonizedHue_def js_rem_def)
  have b: "harmonizedHue 350 25 0.08 = 51"
    by (simp add: harmonizedHue_def js_rem_def)
  from a b show ?thesis by simp
qed

subsection \<open>Round trip through OKLCH\<close>

text \<open>
  The polar form is inverted exactly. The two pairs of matrices are inverse to each other
  up to the truncation of their coefficients, which moves a linear channel by less than
  \<open>1 / 100000\<close>; the gamma curve separates two neighbouring channel values by more than
  that, so rounding recovers the channel.
\<close>

lemma hypot_factor:
  fixes a b :: real
  assumes "a \<noteq> 0"
  shows "sqrt (a * a + b * b) = \<bar>a\<bar> * sqrt (1 + (b / a)\<^sup>2)"
proof -
  from assms have "a * a + b * b = a\<^sup>2 * (1 + (b / a)\<^sup>2)"
    by (simp add: power2_eq_square field_simps)
  then show ?thesis by (simp add: real_sqrt_mult)
qed

lemma polar_arctan:
  fixes a b :: real
  assumes "a \<noteq> 0"
  shows "\<bar>a\<bar> * sqrt (1 + (b / a)\<^sup>2) * cos (arctan (b / a)) = \<bar>a\<bar>"
    and "\<bar>a\<bar> * sqrt (1 + (b / a)\<^sup>2) * sin (arctan (b / a)) = \<bar>a\<bar> * (b / a)"
proof -
  have pos: "0 < sqrt (1 + (b / a)\<^sup>2)"
    by (simp add: add_pos_nonneg)
  then show "\<bar>a\<bar> * sqrt (1 + (b / a)\<^sup>2) * cos (arctan (b / a)) = \<bar>a\<bar>"
    by (simp add: cos_arctan)
  from pos show "\<bar>a\<bar> * sqrt (1 + (b / a)\<^sup>2) * sin (arctan (b / a)) = \<bar>a\<bar> * (b / a)"
    by (simp add: sin_arctan)
qed

lemma polar_roundtrip:
  fixes a b :: real
  shows "sqrt (a * a + b * b) * cos (Math_atan2 b a) = a"
    and "sqrt (a * a + b * b) * sin (Math_atan2 b a) = b"
proof -
  consider "0 < a" | "a < 0" "0 \<le> b" | "a < 0" "b < 0" | "a = 0" "0 < b" | "a = 0" "b < 0"
    | "a = 0" "b = 0" by linarith
  then have "sqrt (a * a + b * b) * cos (Math_atan2 b a) = a \<and>
    sqrt (a * a + b * b) * sin (Math_atan2 b a) = b"
  proof cases
    case 1
    then have "a \<noteq> 0" by simp
    from hypot_factor [OF this, of b] polar_arctan [OF this, of b] 1 show ?thesis
      by (simp add: Math_atan2_def)
  next
    case 2
    then have "a \<noteq> 0" by simp
    from hypot_factor [OF this, of b] polar_arctan [OF this, of b] 2 show ?thesis
      by (simp add: Math_atan2_def)
  next
    case 3
    then have "a \<noteq> 0" by simp
    from hypot_factor [OF this, of b] polar_arctan [OF this, of b] 3 show ?thesis
      by (simp add: Math_atan2_def)
  next
    case 4
    then show ?thesis by (simp add: Math_atan2_def)
  next
    case 5
    then show ?thesis by (simp add: Math_atan2_def)
  next
    case 6
    then show ?thesis by (simp add: Math_atan2_def)
  qed
  then show "sqrt (a * a + b * b) * cos (Math_atan2 b a) = a"
    and "sqrt (a * a + b * b) * sin (Math_atan2 b a) = b" by simp_all
qed

lemma hue_angle:
  "cos ((if t * 180 / pi < 0 then t * 180 / pi + 360 else t * 180 / pi) * pi / 180) = cos t"
  "sin ((if t * 180 / pi < 0 then t * 180 / pi + 360 else t * 180 / pi) * pi / 180) = sin t"
proof -
  have e1: "(t * 180 / pi + 360) * pi / 180 = t + 2 * pi" by (simp add: field_simps)
  have e2: "t * 180 / pi * pi / 180 = t" by simp
  show "cos ((if t * 180 / pi < 0 then t * 180 / pi + 360 else t * 180 / pi) * pi / 180) = cos t"
    by (cases "t * 180 / pi < 0") (simp_all only: if_True if_False e1 e2 cos_periodic)
  show "sin ((if t * 180 / pi < 0 then t * 180 / pi + 360 else t * 180 / pi) * pi / 180) = sin t"
    by (cases "t * 180 / pi < 0") (simp_all only: if_True if_False e1 e2 sin_periodic)
qed

lemma lab_inverse_close:
  fixes l m s :: real
  assumes "0 \<le> l" "l \<le> 1" "0 \<le> m" "m \<le> 1" "0 \<le> s" "s \<le> 1"
  defines "L \<equiv> 0.2104542553 * l + 0.7936177850 * m - 0.0040720468 * s"
    and "a \<equiv> 1.9779984951 * l - 2.4285922050 * m + 0.4505937099 * s"
    and "b \<equiv> 0.0259040371 * l + 0.7827717662 * m - 0.8086757660 * s"
  shows "\<bar>L + 0.3963377774 * a + 0.2158037573 * b - l\<bar> \<le> 1 / 10000000"
    and "\<bar>L - 0.1055613458 * a - 0.0638541728 * b - m\<bar> \<le> 1 / 10000000"
    and "\<bar>L - 0.0894841775 * a - 1.2914855480 * b - s\<bar> \<le> 1 / 10000000"
  using assms(1-6) unfolding L_def a_def b_def abs_le_iff by (simp_all add: algebra_simps)

lemma cube_close:
  fixes x y e :: real
  assumes "0 \<le> y" "y \<le> 1" "\<bar>x - y\<bar> \<le> e" "e \<le> 1 / 1000"
  shows "\<bar>x * x * x - y ^ 3\<bar> \<le> 4 * e"
proof -
  from assms have x: "- 1 / 1000 \<le> x" "x \<le> 1001 / 1000" by linarith+
  have fac: "x * x * x - y ^ 3 = (x - y) * (x * x + x * y + y * y)"
    by (simp add: power3_eq_cube algebra_simps)
  have q0: "0 \<le> x * x + x * y + y * y"
  proof -
    have "x * x + x * y + y * y = (x + y / 2)\<^sup>2 + 3 / 4 * y\<^sup>2"
      by (simp add: power2_eq_square algebra_simps)
    then show ?thesis by simp
  qed
  have "x * x \<le> (1001 / 1000) * (1001 / 1000)"
  proof (cases "0 \<le> x")
    case True
    with x show ?thesis by (intro mult_mono) simp_all
  next
    case False
    with x have "x * x \<le> (1 / 1000) * (1 / 1000)"
      using mult_mono [of "- x" "1 / 1000" "- x" "1 / 1000"] by simp
    then show ?thesis by simp
  qed
  moreover have "x * y \<le> (1001 / 1000) * 1"
  proof (cases "0 \<le> x")
    case True
    with x assms show ?thesis by (intro mult_mono) simp_all
  next
    case False
    with assms have "x * y \<le> 0" by (simp add: mult_le_0_iff)
    then show ?thesis by simp
  qed
  moreover have "y * y \<le> 1 * 1" using assms by (intro mult_mono) simp_all
  ultimately have q4: "x * x + x * y + y * y \<le> 4" by simp
  have "\<bar>x * x * x - y ^ 3\<bar> = \<bar>x - y\<bar> * (x * x + x * y + y * y)"
    using q0 by (simp add: fac abs_mult)
  also have "\<dots> \<le> e * 4"
    using assms(3) q4 q0 by (intro mult_mono) simp_all
  finally show ?thesis by simp
qed

lemma lms_inverse_close:
  fixes lr lg lb dl dm ds :: real
  assumes "0 \<le> lr" "lr \<le> 1" "0 \<le> lg" "lg \<le> 1" "0 \<le> lb" "lb \<le> 1"
    and "\<bar>dl\<bar> \<le> 4 / 10000000" "\<bar>dm\<bar> \<le> 4 / 10000000" "\<bar>ds\<bar> \<le> 4 / 10000000"
  defines "l' \<equiv> 0.4122214708 * lr + 0.5363325363 * lg + 0.0514459929 * lb"
    and "m' \<equiv> 0.2119034982 * lr + 0.6806995451 * lg + 0.1073969566 * lb"
    and "s' \<equiv> 0.0883024619 * lr + 0.2817188376 * lg + 0.6299787005 * lb"
  shows "\<bar>4.0767416621 * (l' + dl) - 3.3077115913 * (m' + dm) + 0.2309699292 * (s' + ds) - lr\<bar>
           \<le> 1 / 100000"
    and "\<bar>- 1.2684380046 * (l' + dl) + 2.6097574011 * (m' + dm) - 0.3413193965 * (s' + ds) - lg\<bar>
           \<le> 1 / 100000"
    and "\<bar>- 0.0041960863 * (l' + dl) - 0.7034186147 * (m' + dm) + 1.7076147010 * (s' + ds) - lb\<bar>
           \<le> 1 / 100000"
  using assms(1-9) unfolding l'_def m'_def s'_def abs_le_iff by (simp_all add: algebra_simps)

lemma powr_24_split:
  fixes t :: real
  assumes "0 < t"
  shows "t powr 2.4 = t\<^sup>2 * t powr 0.4"
proof -
  have "t powr 2.4 = t powr (2 + 0.4)" by simp
  also have "\<dots> = t powr 2 * t powr 0.4" by (rule powr_add)
  finally show ?thesis using assms by simp
qed

lemma powr_24_gap:
  fixes s t :: real
  assumes "0 < s" "s \<le> t" "s \<le> 1"
  shows "(t\<^sup>2 - s\<^sup>2) * s \<le> t powr 2.4 - s powr 2.4"
proof -
  from assms have t: "0 < t" by simp
  have "s powr 1 \<le> s powr 0.4" using assms by (intro powr_mono') simp_all
  with assms have s04: "s \<le> s powr 0.4" by simp
  have st: "s powr 0.4 \<le> t powr 0.4" using assms by (intro powr_mono2) simp_all
  have sq: "0 \<le> t\<^sup>2 - s\<^sup>2" using assms by (simp add: power_mono)
  have "(t\<^sup>2 - s\<^sup>2) * s \<le> (t\<^sup>2 - s\<^sup>2) * s powr 0.4"
    using sq s04 by (rule mult_left_mono [rotated])
  also have "\<dots> = t\<^sup>2 * s powr 0.4 - s\<^sup>2 * s powr 0.4" by (simp add: algebra_simps)
  also have "\<dots> \<le> t\<^sup>2 * t powr 0.4 - s\<^sup>2 * s powr 0.4"
    using st by (simp add: mult_left_mono)
  finally show ?thesis unfolding powr_24_split [OF assms(1)] powr_24_split [OF t] .
qed

lemma powr_24_inv:
  fixes t :: real
  assumes "0 < t"
  shows "(t powr 2.4) powr (1 / 2.4) = t"
proof -
  have "(t powr 2.4) powr (1 / 2.4) = t powr (2.4 * (1 / 2.4))" by (rule powr_powr)
  also have "\<dots> = t powr 1" by simp
  finally show ?thesis using assms by simp
qed

lemma powr_inv_le:
  fixes t y :: real
  assumes "0 < t" "t powr 2.4 \<le> y"
  shows "t \<le> y powr (1 / 2.4)"
proof -
  have "(t powr 2.4) powr (1 / 2.4) \<le> y powr (1 / 2.4)"
    using assms by (intro powr_mono2) simp_all
  then show ?thesis by (simp only: powr_24_inv [OF assms(1)])
qed

lemma powr_inv_less:
  fixes t y :: real
  assumes "0 < t" "0 \<le> y" "y < t powr 2.4"
  shows "y powr (1 / 2.4) < t"
proof -
  have "y powr (1 / 2.4) < (t powr 2.4) powr (1 / 2.4)"
    using assms by (intro powr_less_mono2) simp_all
  then show ?thesis by (simp only: powr_24_inv [OF assms(1)])
qed

lemma powr_24_pow5:
  fixes t :: real
  assumes "0 < t"
  shows "(t powr 2.4) ^ 5 = t ^ 12"
proof -
  have "(t powr 2.4) ^ 5 = (t powr 2.4) powr 5" by simp
  also have "\<dots> = t powr (2.4 * 5)" by (rule powr_powr)
  also have "\<dots> = t powr 12" by simp
  finally show ?thesis using assms by simp
qed

lemma powr_24_lower:
  fixes u :: real
  assumes "1001 / 10761 \<le> u"
  shows "32 / 10000 \<le> u powr 2.4"
proof -
  let ?k = "(1001 / 10761 :: real)"
  have "(32 / 10000 :: real) ^ 5 \<le> ?k ^ 12" by (simp add: power_divide)
  also have "\<dots> = (?k powr 2.4) ^ 5" by (rule powr_24_pow5 [symmetric]) simp
  finally have "(32 / 10000 :: real) ^ 5 \<le> (?k powr 2.4) ^ 5" .
  then have "32 / 10000 \<le> ?k powr 2.4"
    by (subst (asm) power_mono_iff) simp_all
  also have "\<dots> \<le> u powr 2.4" using assms by (intro powr_mono2) simp_all
  finally show ?thesis .
qed

lemma srgbToLinear_range:
  assumes "0 \<le> c" "c \<le> 255"
  shows "0 \<le> srgbToLinear c" "srgbToLinear c \<le> 1"
proof -
  have "0 \<le> srgbToLinear c \<and> srgbToLinear c \<le> 1"
  proof (cases "c / 255 \<le> 0.04045")
    case True
    with assms show ?thesis by (simp add: srgbToLinear_def Let_def)
  next
    case False
    from assms have "\<bar>(c / 255 + 0.055) / 1.055\<bar> \<le> 1" by simp
    then have "((c / 255 + 0.055) / 1.055) powr 2.4 \<le> 1" by (intro powr_le1) simp_all
    with False show ?thesis by (simp add: srgbToLinear_def Let_def)
  qed
  then show "0 \<le> srgbToLinear c" "srgbToLinear c \<le> 1" by simp_all
qed

lemma linearToSrgb_near_low:
  assumes n: "n \<le> 10" and x: "\<bar>x - srgbToLinear (real n)\<bar> \<le> 1 / 100000"
  shows "linearToSrgb x = real n"
proof -
  from n have n': "real n \<le> 10" by simp
  then have "real n / 255 \<le> 0.04045" by simp
  then have lin: "srgbToLinear (real n) = real n / 255 / 12.92"
    by (simp add: srgbToLinear_def Let_def)
  define y where "y = max 0 (min 1 x)"
  from x have "srgbToLinear (real n) - 1 / 100000 \<le> x" "x \<le> srgbToLinear (real n) + 1 / 100000"
    by linarith+
  then have xb: "real n / 255 / 12.92 - 1 / 100000 \<le> x" "x \<le> real n / 255 / 12.92 + 1 / 100000"
    unfolding lin .
  from xb n' have x1: "x \<le> 0.0031308" by simp
  then have yx: "y = max 0 x" by (simp add: y_def)
  with xb have yb: "real n / 255 / 12.92 - 1 / 100000 \<le> y" "y \<le> real n / 255 / 12.92 + 1 / 100000"
    by simp_all
  from yx x1 have ybr: "y \<le> 0.0031308" by simp
  from yb have "real n - 1 / 2 \<le> y * 12.92 * 255" "y * 12.92 * 255 < real n + 1 / 2"
    by simp_all
  then have "Math_round (y * 12.92 * 255) = real n" by (rule Math_round_eq)
  with ybr show ?thesis by (simp add: linearToSrgb_def Let_def y_def [symmetric])
qed

lemma linearToSrgb_near_high:
  assumes n: "11 \<le> n" "n \<le> 255" and x: "\<bar>x - srgbToLinear (real n)\<bar> \<le> 1 / 100000"
  shows "linearToSrgb x = real n"
proof -
  define u where "u = (real n / 255 + 0.055) / 1.055"
  define h :: real where "h = 1 / (2 * 255 * 1.055)"
  from n have n': "11 \<le> real n" "real n \<le> 255" by simp_all
  then have ub: "1001 / 10761 \<le> u" "u \<le> 1" by (simp_all add: u_def)
  then have upos: "0 < u" by simp
  have hv: "0 < h" "h \<le> 19 / 10000" "18 / 10000 \<le> h" by (simp_all add: h_def)
  from n' have "\<not> real n / 255 \<le> 0.04045" by simp
  then have lin: "srgbToLinear (real n) = u powr 2.4"
    by (simp add: srgbToLinear_def Let_def u_def)
  have lin_lo: "32 / 10000 \<le> u powr 2.4" using ub(1) by (rule powr_24_lower)
  have lin_hi: "u powr 2.4 \<le> 1" using ub upos by (intro powr_le1) simp_all
  define y where "y = max 0 (min 1 x)"
  from x have "srgbToLinear (real n) - 1 / 100000 \<le> x" "x \<le> srgbToLinear (real n) + 1 / 100000"
    by linarith+
  then have xb: "u powr 2.4 - 1 / 100000 \<le> x" "x \<le> u powr 2.4 + 1 / 100000"
    unfolding lin .
  from xb lin_lo have xpos: "0.0031308 < x" by simp
  then have yx: "y = min 1 x" by (simp add: y_def)
  with xb lin_hi have yb: "u powr 2.4 - 1 / 100000 \<le> y" "y \<le> u powr 2.4 + 1 / 100000"
    by simp_all
  from yx xpos have ybr: "0.0031308 < y" by simp
  \<comment> \<open>the gaps of the curve around \<open>u\<close>\<close>
  have lo_pos: "0 < u - h" using ub hv by simp
  have "1 / 100000 \<le> (u\<^sup>2 - (u - h)\<^sup>2) * (u - h)"
  proof -
    have e: "(u\<^sup>2 - (u - h)\<^sup>2) * (u - h) = h * ((2 * u - h) * (u - h))"
      by (simp add: power2_eq_square algebra_simps)
    have A: "(18 / 100) * (9 / 100) \<le> (2 * u - h) * (u - h)"
      using ub hv by (intro mult_mono) simp_all
    have "(18 / 10000) * ((18 / 100) * (9 / 100)) \<le> h * ((2 * u - h) * (u - h))"
      by (rule mult_mono [OF hv(3) A]) (use hv in simp_all)
    moreover have "(1 / 100000 :: real) \<le> (18 / 10000) * ((18 / 100) * (9 / 100))" by simp
    ultimately show ?thesis unfolding e by linarith
  qed
  also have "\<dots> \<le> u powr 2.4 - (u - h) powr 2.4"
    using lo_pos ub hv by (intro powr_24_gap) simp_all
  finally have "(u - h) powr 2.4 \<le> y" using yb by simp
  with lo_pos have p_lo: "u - h \<le> y powr (1 / 2.4)" by (rule powr_inv_le)
  have "1 / 100000 < ((u + h)\<^sup>2 - u\<^sup>2) * u"
  proof -
    have e: "((u + h)\<^sup>2 - u\<^sup>2) * u = h * ((2 * u + h) * u)"
      by (simp add: power2_eq_square algebra_simps)
    have A: "(18 / 100) * (9 / 100) \<le> (2 * u + h) * u"
      using ub hv by (intro mult_mono) simp_all
    have "(18 / 10000) * ((18 / 100) * (9 / 100)) \<le> h * ((2 * u + h) * u)"
      by (rule mult_mono [OF hv(3) A]) (use hv in simp_all)
    moreover have "(1 / 100000 :: real) < (18 / 10000) * ((18 / 100) * (9 / 100))" by simp
    ultimately show ?thesis unfolding e by linarith
  qed
  also have "\<dots> \<le> (u + h) powr 2.4 - u powr 2.4"
    using upos ub hv by (intro powr_24_gap) simp_all
  finally have "y < (u + h) powr 2.4" using yb by simp
  moreover have "0 < u + h" "0 \<le> y" using upos hv ybr by simp_all
  ultimately have p_hi: "y powr (1 / 2.4) < u + h" by (intro powr_inv_less)
  define p where "p = y powr (1 / 2.4)"
  have nu: "real n = (1.055 * u - 0.055) * 255" by (simp add: u_def add_divide_distrib)
  from p_lo p_hi have "real n - 1 / 2 \<le> (1.055 * p - 0.055) * 255"
    "(1.055 * p - 0.055) * 255 < real n + 1 / 2"
    unfolding nu p_def h_def by (simp_all add: field_simps)
  then have "Math_round ((1.055 * p - 0.055) * 255) = real n" by (rule Math_round_eq)
  with ybr show ?thesis by (simp add: linearToSrgb_def Let_def y_def [symmetric] p_def)
qed

lemma linearToSrgb_near:
  assumes "n \<le> 255" "\<bar>x - srgbToLinear (real n)\<bar> \<le> 1 / 100000"
  shows "linearToSrgb x = real n"
proof (cases "n \<le> 10")
  case True
  then show ?thesis using assms(2) by (rule linearToSrgb_near_low)
next
  case False
  then have "11 \<le> n" by simp
  then show ?thesis using assms by (rule linearToSrgb_near_high)
qed

lemma root3_unit:
  assumes "0 \<le> x" "x \<le> 1"
  shows "0 \<le> root 3 x" "root 3 x \<le> 1" "root 3 x ^ 3 = x"
proof -
  from assms show "0 \<le> root 3 x" by simp
  from assms have "root 3 x \<le> root 3 1" by (simp del: real_root_one)
  then show "root 3 x \<le> 1" by simp
  from assms show "root 3 x ^ 3 = x" by simp
qed

lemma roundTrip_exact:
  fixes r g b :: nat
  assumes "r \<le> 255" "g \<le> 255" "b \<le> 255"
  shows "roundTrip (real r) (real g) (real b) = (real r, real g, real b)"
proof -
  define lr lg lb where "lr = srgbToLinear (real r)" and "lg = srgbToLinear (real g)"
    and "lb = srgbToLinear (real b)"
  define l' m' s' where
    "l' = 0.4122214708 * lr + 0.5363325363 * lg + 0.0514459929 * lb" and
    "m' = 0.2119034982 * lr + 0.6806995451 * lg + 0.1073969566 * lb" and
    "s' = 0.0883024619 * lr + 0.2817188376 * lg + 0.6299787005 * lb"
  define l m s where "l = root 3 l'" and "m = root 3 m'" and "s = root 3 s'"
  define L a bv where
    "L = 0.2104542553 * l + 0.7936177850 * m - 0.0040720468 * s" and
    "a = 1.9779984951 * l - 2.4285922050 * m + 0.4505937099 * s" and
    "bv = 0.0259040371 * l + 0.7827717662 * m - 0.8086757660 * s"
  define C where "C = sqrt (a * a + bv * bv)"
  define t where "t = Math_atan2 bv a"
  define H where "H = (if t * 180 / pi < 0 then t * 180 / pi + 360 else t * 180 / pi)"
  have fwd: "rgbToOklch (real r) (real g) (real b) = (L, C, H)"
    unfolding rgbToOklch_def Let_def H_def t_def C_def L_def a_def bv_def l_def m_def s_def
      l'_def m'_def s'_def lr_def lg_def lb_def ..
  have ca: "C * cos (H * pi / 180) = a" and sa: "C * sin (H * pi / 180) = bv"
    unfolding H_def hue_angle C_def t_def by (rule polar_roundtrip)+
  define l2 m2 s2 where
    "l2 = L + 0.3963377774 * a + 0.2158037573 * bv" and
    "m2 = L - 0.1055613458 * a - 0.0638541728 * bv" and
    "s2 = L - 0.0894841775 * a - 1.2914855480 * bv"
  define lr2 lg2 lb2 where
    "lr2 = 4.0767416621 * (l2 * l2 * l2) - 3.3077115913 * (m2 * m2 * m2)
             + 0.2309699292 * (s2 * s2 * s2)" and
    "lg2 = - 1.2684380046 * (l2 * l2 * l2) + 2.6097574011 * (m2 * m2 * m2)
             - 0.3413193965 * (s2 * s2 * s2)" and
    "lb2 = - 0.0041960863 * (l2 * l2 * l2) - 0.7034186147 * (m2 * m2 * m2)
             + 1.7076147010 * (s2 * s2 * s2)"
  have bwd: "oklchToRgb L C H = (linearToSrgb lr2, linearToSrgb lg2, linearToSrgb lb2)"
    unfolding oklchToRgb_def Let_def ca sa lr2_def lg2_def lb2_def l2_def m2_def s2_def ..
  from assms have lin: "0 \<le> lr" "lr \<le> 1" "0 \<le> lg" "lg \<le> 1" "0 \<le> lb" "lb \<le> 1"
    unfolding lr_def lg_def lb_def by (simp_all add: srgbToLinear_range)
  then have lms': "0 \<le> l'" "l' \<le> 1" "0 \<le> m'" "m' \<le> 1" "0 \<le> s'" "s' \<le> 1"
    unfolding l'_def m'_def s'_def by simp_all
  then have lms: "0 \<le> l" "l \<le> 1" "0 \<le> m" "m \<le> 1" "0 \<le> s" "s \<le> 1"
    and cubes: "l ^ 3 = l'" "m ^ 3 = m'" "s ^ 3 = s'"
    unfolding l_def m_def s_def by (simp_all add: root3_unit)
  have close: "\<bar>l2 - l\<bar> \<le> 1 / 10000000" "\<bar>m2 - m\<bar> \<le> 1 / 10000000"
    "\<bar>s2 - s\<bar> \<le> 1 / 10000000"
    unfolding l2_def m2_def s2_def L_def a_def bv_def
    by (rule lab_inverse_close [OF lms])+
  define dl dm ds where "dl = l2 * l2 * l2 - l'" and "dm = m2 * m2 * m2 - m'"
    and "ds = s2 * s2 * s2 - s'"
  have d: "\<bar>dl\<bar> \<le> 4 / 10000000" "\<bar>dm\<bar> \<le> 4 / 10000000" "\<bar>ds\<bar> \<le> 4 / 10000000"
    using cube_close [OF lms(1,2) close(1)] cube_close [OF lms(3,4) close(2)]
      cube_close [OF lms(5,6) close(3)]
    unfolding dl_def dm_def ds_def cubes by simp_all
  have sums: "l2 * l2 * l2 = l' + dl" "m2 * m2 * m2 = m' + dm" "s2 * s2 * s2 = s' + ds"
    by (simp_all add: dl_def dm_def ds_def)
  have near: "\<bar>lr2 - lr\<bar> \<le> 1 / 100000" "\<bar>lg2 - lg\<bar> \<le> 1 / 100000"
    "\<bar>lb2 - lb\<bar> \<le> 1 / 100000"
    unfolding lr2_def lg2_def lb2_def sums l'_def m'_def s'_def
    by (rule lms_inverse_close [OF lin d])+
  have "linearToSrgb lr2 = real r" "linearToSrgb lg2 = real g" "linearToSrgb lb2 = real b"
    using assms near unfolding lr_def lg_def lb_def by (simp_all add: linearToSrgb_near)
  with fwd bwd show ?thesis by (simp add: roundTrip_def)
qed

text \<open>
  Claim C2. For every RGB triple of integers between 0 and 255, \<open>oklchToRgb\<close> applied to
  the result of \<open>rgbToOklch\<close> returns channels that differ from the original ones by at
  most 1 (in exact arithmetic they are the original ones, by \<open>roundTrip_exact\<close>).
\<close>

theorem rgb_oklch_roundtrip:
  fixes r g b :: nat
  assumes "r \<le> 255" "g \<le> 255" "b \<le> 255"
  shows "\<exists>r' g' b'. roundTrip (real r) (real g) (real b) = (r', g', b') \<and>
           \<bar>r' - real r\<bar> \<le> 1 \<and> \<bar>g' - real g\<bar> \<le> 1 \<and> \<bar>b' - real b\<bar> \<le> 1"
  using roundTrip_exact [OF assms] by simp

theorem rgb_oklch_roundtrip_witness:
  "(59::nat) \<le> 255 \<and> (130::nat) \<le> 255 \<and> (246::nat) \<le> 255 \<and>
   (\<exists>r' g' b'. roundTrip 59 130 246 = (r', g', b') \<and>
      \<bar>r' - 59\<bar> \<le> 1 \<and> \<bar>g' - 130\<bar> \<le> 1 \<and> \<bar>b' - 246\<bar> \<le> 1)"
  using rgb_oklch_roundtrip [of 59 130 246] by simp

end
